theory Spec2Isabelle
  imports Complex_Main "HOL-Library.Word"
begin

section \<open>Numbers and points\<close>

text \<open>
  The mesh stores C \<^verbatim>\<open>float\<close> coordinates. A coordinate is either a number or NaN;
  finite values are taken as reals (rounding, overflow and the infinities are not
  modelled). What the mesh code relies on is kept: NaN is unequal to everything,
  itself included, is ordered with nothing, and spreads through arithmetic.
\<close>

datatype cfloat = Finite real | NaN

fun isnan :: "cfloat \<Rightarrow> bool" where
  "isnan NaN = True"
| "isnan (Finite a) = False"

fun feq :: "cfloat \<Rightarrow> cfloat \<Rightarrow> bool" where
  "feq (Finite a) (Finite b) = (a = b)"
| "feq a b = False"

fun fless :: "cfloat \<Rightarrow> cfloat \<Rightarrow> bool" where
  "fless (Finite a) (Finite b) = (a < b)"
| "fless a b = False"

fun fadd :: "cfloat \<Rightarrow> cfloat \<Rightarrow> cfloat" where
  "fadd (Finite a) (Finite b) = Finite (a + b)"
| "fadd a b = NaN"

fun fsub :: "cfloat \<Rightarrow> cfloat \<Rightarrow> cfloat" where
  "fsub (Finite a) (Finite b) = Finite (a - b)"
| "fsub a b = NaN"





text \<open>\<^verbatim>\<open>cv::Point3f\<close> and \<^verbatim>\<open>cv::Vec3f\<close>: three floats.\<close>

datatype Point3f = Point3f (pt_x: cfloat) (pt_y: cfloat) (pt_z: cfloat)

datatype Point2f = Point2f (pt_u: cfloat) (pt_v: cfloat)

text \<open>\<^verbatim>\<open>cv::Vec3b\<close>: three unsigned bytes.\<close>

datatype Vec3b = Vec3b (col_r: "8 word") (col_g: "8 word") (col_b: "8 word")






text \<open>\<^verbatim>\<open>operator==\<close> on points: all three coordinates compare equal.\<close>

definition pt_eq :: "Point3f \<Rightarrow> Point3f \<Rightarrow> bool" where
  "pt_eq p q = (feq (pt_x p) (pt_x q) \<and> feq (pt_y p) (pt_y q) \<and> feq (pt_z p) (pt_z q))"

text \<open>
  Modelled from the spec: \<^verbatim>\<open>operator<\<close> on points, used by \<^verbatim>\<open>VertexComparator\<close>, is
  declared in a header that is not part of the sources at hand. The spec gives it as
  the lexicographic order on x, then y, then z, with exact floating-point comparison.
\<close>

definition pt_less :: "Point3f \<Rightarrow> Point3f \<Rightarrow> bool" where
  "pt_less p q =
     (if \<not> feq (pt_x p) (pt_x q) then fless (pt_x p) (pt_x q)
      else if \<not> feq (pt_y p) (pt_y q) then fless (pt_y p) (pt_y q)
      else fless (pt_z p) (pt_z q))"

text \<open>
  Modelled from the spec: \<^verbatim>\<open>infinite_point()\<close> and \<^verbatim>\<open>isnan\<close> on a point come from the
  same missing header. The spec describes the sentinel as a point with all coordinates
  set to a non-finite marker, and the compaction as dropping a vertex whose position
  is NaN.
\<close>

definition infinite_point :: Point3f where
  "infinite_point = Point3f NaN NaN NaN"

definition isnan_pt :: "Point3f \<Rightarrow> bool" where
  "isnan_pt p = (isnan (pt_x p) \<or> isnan (pt_y p) \<or> isnan (pt_z p))"

section \<open>The mesh\<close>

text \<open>A face holds three vertex indices (C \<^verbatim>\<open>int\<close>s; the compaction stores -1 in them).\<close>

datatype Face = Face (i0: int) (i1: int) (i2: int)

fun map_face :: "(int \<Rightarrow> int) \<Rightarrow> Face \<Rightarrow> Face" where
  "map_face f (Face a b c) = Face (f a) (f b) (f c)"

fun face_indices :: "Face \<Rightarrow> int list" where
  "face_indices (Face a b c) = [a, b, c]"

datatype FaceTexcoord = FaceTexcoord (ftc_u: "cfloat \<times> cfloat \<times> cfloat") (ftc_v: "cfloat \<times> cfloat \<times> cfloat")

record Mesh =
  vertices :: "Point3f list"
  colors :: "Vec3b list"
  normals :: "Point3f list"
  texcoords :: "Point2f list"
  face_texcoords :: "FaceTexcoord list"
  faces :: "Face list"
  texture :: "Vec3b list list"

definition empty_mesh :: Mesh where
  "empty_mesh = \<lparr>vertices = [], colors = [], normals = [], texcoords = [],
                 face_texcoords = [], faces = [], texture = []\<rparr>"

text \<open>
  Modelled from the spec: the presence queries are inline members of the missing class
  declaration. The spec: an attribute is present iff its array length equals the vertex
  count; faces and wedge coordinates are present when there are any.
\<close>

definition hasColors :: "Mesh \<Rightarrow> bool" where
  "hasColors m = (length (colors m) = length (vertices m))"

definition hasNormals :: "Mesh \<Rightarrow> bool" where
  "hasNormals m = (length (normals m) = length (vertices m))"

definition hasTexcoords :: "Mesh \<Rightarrow> bool" where
  "hasTexcoords m = (length (texcoords m) = length (vertices m))"



text \<open>
  Failures are values. \<open>Fatal\<close> is \<^verbatim>\<open>ntk_ensure\<close>, \<open>Thrown\<close> is
  \<^verbatim>\<open>ntk_throw_exception_if\<close>, \<open>AssertFailed\<close> is \<^verbatim>\<open>ntk_assert\<close>. The last three are
  the ways the C++ leaves defined behaviour: an index outside its array, an increment
  of \<^verbatim>\<open>INT_MAX\<close>, and \<^verbatim>\<open>std::sort\<close> called with a comparator that is not a strict
  weak ordering of the data.
\<close>

datatype error =
    Fatal string
  | Thrown string
  | AssertFailed string
  | OutOfBounds
  | SignedOverflow
  | SortContract

section \<open>Builders\<close>

subsection \<open>\<^verbatim>\<open>generate_mesh_from_plane\<close>\<close>

text \<open>
  \<^verbatim>\<open>Plane::intersectionWithLine\<close> belongs to a collaborator and is a parameter
  \<open>isect\<close>: it takes the plane and the two end points of a line.
\<close>

definition generate_mesh_from_plane ::
  "('plane \<Rightarrow> Point3f \<Rightarrow> Point3f \<Rightarrow> Point3f) \<Rightarrow> Mesh \<Rightarrow> 'plane \<Rightarrow> Point3f \<Rightarrow> cfloat \<Rightarrow> Mesh" where
  "generate_mesh_from_plane isect mesh plane center plane_size =
    (let cx = pt_x center; cy = pt_y center; cz = pt_z center; s = plane_size;
         line1 = (Point3f (fsub cx s) (fsub cy s) (fsub cz s), Point3f (fsub cx s) (fadd cy s) (fsub cz s));
         line2 = (Point3f (fadd cx s) (fsub cy s) (fsub cz s), Point3f (fadd cx s) (fadd cy s) (fsub cz s));
         line3 = (Point3f (fsub cx s) (fsub cy s) (fadd cz s), Point3f (fsub cx s) (fadd cy s) (fadd cz s));
         line4 = (Point3f (fadd cx s) (fsub cy s) (fadd cz s), Point3f (fadd cx s) (fadd cy s) (fadd cz s));
         plane_p1 = isect plane (fst line1) (snd line1);
         plane_p2 = isect plane (fst line2) (snd line2);
         plane_p3 = isect plane (fst line3) (snd line3);
         plane_p4 = isect plane (fst line4) (snd line4)
     in mesh\<lparr>vertices := vertices mesh @ [plane_p1, plane_p2, plane_p3, plane_p4],
              faces := faces mesh @ [Face 0 1 2, Face 2 1 3]\<rparr>)"


subsection \<open>\<^verbatim>\<open>Mesh::addMesh\<close>\<close>

definition shift_face :: "int \<Rightarrow> Face \<Rightarrow> Face" where
  "shift_face offset f = map_face (\<lambda>i. i + offset) f"

text \<open>
  The receiver is \<open>m\<close>, the operand \<open>rhs\<close>. \<^verbatim>\<open>has_colors\<close> is read before the vertices
  are appended, \<^verbatim>\<open>has_normals\<close> after, as in the source. A throw ends the call; the
  half-updated receiver is not part of the result.
\<close>

definition addMesh :: "Mesh \<Rightarrow> Mesh \<Rightarrow> error + Mesh" where
  "addMesh rhs m =
    (if length (vertices m) < 1 then Inr rhs
     else
       let has_colors = hasColors m;
           offset = int (length (vertices m));
           m1 = m\<lparr>vertices := vertices m @ vertices rhs\<rparr>
       in if has_colors \<and> \<not> hasColors rhs
          then Inl (Thrown ''Cannot merge different kind of meshes.'')
          else
            let m2 = (if has_colors then m1\<lparr>colors := colors m1 @ colors rhs\<rparr> else m1);
                has_normals = hasNormals m2
            in if has_normals \<and> \<not> hasNormals rhs
               then Inl (Thrown ''Cannot merge different kind of meshes.'')
               else
                 let m3 = (if has_normals then m2\<lparr>normals := normals m2 @ normals rhs\<rparr> else m2)
                 in Inr (m3\<lparr>faces := faces m3 @ map (shift_face offset) (faces rhs)\<rparr>))"

subsection \<open>Surfels\<close>




subsection \<open>\<^verbatim>\<open>Mesh::addCube\<close>\<close>



subsection \<open>\<^verbatim>\<open>clear\<close> and \<^verbatim>\<open>applyScaleTransform\<close>\<close>



section \<open>Normals from faces\<close>

text \<open>
  An index is usable when it lies inside the array; anything else is a read or write
  outside a \<^verbatim>\<open>std::vector\<close>, which the model reports as \<open>OutOfBounds\<close>.
\<close>

definition in_range :: "int \<Rightarrow> 'a list \<Rightarrow> bool" where
  "in_range i xs = (0 \<le> i \<and> nat i < length xs)"


definition zero_vec :: Point3f where
  "zero_vec = Point3f (Finite 0) (Finite 0) (Finite 0)"





section \<open>Topology cleanup\<close>

subsection \<open>\<^verbatim>\<open>Mesh::removeIsolatedVertices\<close>\<close>

text \<open>The first loop: \<open>cur\<close> is \<^verbatim>\<open>cur_index\<close> on entry to the rest of the array.\<close>

fun new_indices_from :: "int \<Rightarrow> Point3f list \<Rightarrow> int list" where
  "new_indices_from cur [] = []"
| "new_indices_from cur (v # vs) =
     (if isnan_pt v then (- 1) # new_indices_from cur vs
      else cur # new_indices_from (cur + 1) vs)"

fun cur_index_from :: "int \<Rightarrow> Point3f list \<Rightarrow> int" where
  "cur_index_from cur [] = cur"
| "cur_index_from cur (v # vs) =
     (if isnan_pt v then cur_index_from cur vs else cur_index_from (cur + 1) vs)"

text \<open>
  The second loop copies vertex \<open>i\<close> and its attributes to slot \<^verbatim>\<open>new_indices[i]\<close> of
  the new arrays; \<open>hc\<close>, \<open>hn\<close>, \<open>ht\<close> are the three presence queries on the old mesh.
\<close>

definition copy_vertex :: "Mesh \<Rightarrow> int list \<Rightarrow> nat \<Rightarrow> Mesh \<Rightarrow> Mesh" where
  "copy_vertex m new_indices i new_mesh =
     (if new_indices ! i < 0 then new_mesh
      else
        let k = nat (new_indices ! i);
            nm1 = new_mesh\<lparr>vertices := (vertices new_mesh)[k := vertices m ! i]\<rparr>;
            nm2 = (if hasColors m then nm1\<lparr>colors := (colors nm1)[k := colors m ! i]\<rparr> else nm1);
            nm3 = (if hasNormals m then nm2\<lparr>normals := (normals nm2)[k := normals m ! i]\<rparr> else nm2)
        in (if hasTexcoords m then nm3\<lparr>texcoords := (texcoords nm3)[k := texcoords m ! i]\<rparr> else nm3))"

definition remap_index :: "int list \<Rightarrow> int \<Rightarrow> error + int" where
  "remap_index new_indices old_index =
     (if in_range old_index new_indices then Inr (new_indices ! nat old_index)
      else Inl OutOfBounds)"

fun remap_face :: "int list \<Rightarrow> Face \<Rightarrow> error + Face" where
  "remap_face new_indices (Face a b c) =
     (case remap_index new_indices a of
        Inl e \<Rightarrow> Inl e
      | Inr a' \<Rightarrow>
          (case remap_index new_indices b of
             Inl e \<Rightarrow> Inl e
           | Inr b' \<Rightarrow>
               (case remap_index new_indices c of
                  Inl e \<Rightarrow> Inl e
                | Inr c' \<Rightarrow> Inr (Face a' b' c'))))"

fun remap_faces :: "int list \<Rightarrow> Face list \<Rightarrow> error + Face list" where
  "remap_faces new_indices [] = Inr []"
| "remap_faces new_indices (f # fs) =
     (case remap_face new_indices f of
        Inl e \<Rightarrow> Inl e
      | Inr f' \<Rightarrow>
          (case remap_faces new_indices fs of
             Inl e \<Rightarrow> Inl e
           | Inr fs' \<Rightarrow> Inr (f' # fs')))"

definition removeIsolatedVertices :: "Mesh \<Rightarrow> error + Mesh" where
  "removeIsolatedVertices m =
    (let new_indices = new_indices_from 0 (vertices m);
         cur_index = nat (cur_index_from 0 (vertices m));
         new_mesh0 = empty_mesh\<lparr>
           vertices := replicate cur_index zero_vec,
           colors := (if hasColors m then replicate cur_index (Vec3b 0 0 0) else []),
           normals := (if hasNormals m then replicate cur_index zero_vec else []),
           texcoords := (if hasTexcoords m then replicate cur_index (Point2f (Finite 0) (Finite 0)) else [])\<rparr>;
         new_mesh = fold (copy_vertex m new_indices) [0..<length (vertices m)] new_mesh0
     in case remap_faces new_indices (faces m) of
          Inl e \<Rightarrow> Inl e
        | Inr fs \<Rightarrow>
            Inr (m\<lparr>vertices := vertices new_mesh, colors := colors new_mesh,
                   normals := normals new_mesh, texcoords := texcoords new_mesh,
                   faces := fs\<rparr>))"

subsection \<open>\<^verbatim>\<open>Mesh::removeDuplicatedVertices\<close>\<close>

text \<open>
  \<^verbatim>\<open>std::sort\<close> asks for a comparator that is a strict weak ordering of the values it
  sorts, and is undefined otherwise; \<open>strict_weak_on\<close> is that requirement on the list.
  Where it holds the model sorts by insertion, each element going behind the ones it
  is not smaller than.
\<close>

definition strict_weak_on :: "('a \<Rightarrow> 'a \<Rightarrow> bool) \<Rightarrow> 'a list \<Rightarrow> bool" where
  "strict_weak_on lt xs =
     (list_all (\<lambda>a. \<not> lt a a) xs \<and>
      list_all (\<lambda>a. list_all (\<lambda>b. list_all (\<lambda>c.
          (if lt a b \<and> lt b c then lt a c else True) \<and>
          (if \<not> lt a b \<and> \<not> lt b a \<and> \<not> lt b c \<and> \<not> lt c b then \<not> lt a c \<and> \<not> lt c a else True))
        xs) xs) xs)"

fun insert_sorted :: "('a \<Rightarrow> 'a \<Rightarrow> bool) \<Rightarrow> 'a \<Rightarrow> 'a list \<Rightarrow> 'a list" where
  "insert_sorted lt x [] = [x]"
| "insert_sorted lt x (y # ys) = (if lt x y then x # y # ys else y # insert_sorted lt x ys)"

definition std_sort :: "('a \<Rightarrow> 'a \<Rightarrow> bool) \<Rightarrow> 'a list \<Rightarrow> 'a list" where
  "std_sort lt xs = fold (insert_sorted lt) xs []"

text \<open>
  \<^verbatim>\<open>i\<close> and \<^verbatim>\<open>j\<close> are C \<^verbatim>\<open>int\<close>s that start at 0 and are only ever incremented, so the
  model keeps them as naturals and makes the one way they can leave the range of
  \<^verbatim>\<open>int\<close>, an increment of \<^verbatim>\<open>INT_MAX\<close>, the error \<open>SignedOverflow\<close>. The loop bound
  \<^verbatim>\<open>ordered_indices.size() - 1\<close> is computed in \<^verbatim>\<open>size_t\<close> (64 bits), where it wraps.
\<close>

definition INT_MAX :: nat where
  "INT_MAX = 2147483647"

definition size_t_sub :: "nat \<Rightarrow> nat \<Rightarrow> nat" where
  "size_t_sub a b = (a + 2 ^ 64 - b) mod 2 ^ 64"

text \<open>
  The inner \<^verbatim>\<open>while\<close>: the state is the vertex array and the alias map. Inside
  \<^verbatim>\<open>removeDuplicatedVertices\<close> the list \<open>ord\<close> is a permutation of the vertex indices
  and \<open>i\<close> is below its length, so every read here is inside its array.
\<close>

function dedup_inner ::
  "nat list \<Rightarrow> nat \<Rightarrow> nat \<Rightarrow> Point3f list \<times> (int \<rightharpoonup> int) \<Rightarrow> error + (nat \<times> Point3f list \<times> (int \<rightharpoonup> int))" where
  "dedup_inner ord i j (vs, al) =
     (if j < length ord \<and> pt_eq (vs ! (ord ! i)) (vs ! (ord ! j)) then
        (if INT_MAX \<le> j then Inl SignedOverflow
         else dedup_inner ord i (j + 1)
                (vs[ord ! j := infinite_point], al(int (ord ! j) \<mapsto> int (ord ! i))))
      else Inr (j, vs, al))"
  by pat_completeness auto
termination
  by (relation "measure (\<lambda>(ord, i, j, st). length ord - j)") auto

declare dedup_inner.simps [simp del]

lemma dedup_inner_advances:
  "dedup_inner ord i j st = Inr (j', st') \<Longrightarrow> j \<le> j'"
proof (induction ord i j st rule: dedup_inner.induct)
  case (1 ord i j vs al)
  show ?case
  proof (cases "j < length ord \<and> pt_eq (vs ! (ord ! i)) (vs ! (ord ! j))")
    case True
    with "1.prems" have ne: "\<not> INT_MAX \<le> j"
      by (subst (asm) dedup_inner.simps) (auto split: if_splits)
    with True "1.prems" have "dedup_inner ord i (j + 1)
        (vs[ord ! j := infinite_point], al(int (ord ! j) \<mapsto> int (ord ! i))) = Inr (j', st')"
      by (subst (asm) dedup_inner.simps) simp
    with "1.IH" True ne have "j + 1 \<le> j'" by blast
    then show ?thesis by simp
  next
    case False
    with "1.prems" show ?thesis
      by (subst (asm) dedup_inner.simps) auto
  qed
qed

text \<open>The outer \<^verbatim>\<open>for\<close>.\<close>

function dedup_outer ::
  "nat list \<Rightarrow> nat \<Rightarrow> Point3f list \<times> (int \<rightharpoonup> int) \<Rightarrow> error + (Point3f list \<times> (int \<rightharpoonup> int))" where
  "dedup_outer ord i st =
     (if i < size_t_sub (length ord) 1 then
        (if INT_MAX \<le> i then Inl SignedOverflow
         else
           (case dedup_inner ord i (i + 1) st of
              Inl e \<Rightarrow> Inl e
            | Inr (j, st') \<Rightarrow> dedup_outer ord j st'))
      else Inr st)"
  by pat_completeness auto
termination
proof (relation "measure (\<lambda>(ord, i, st). INT_MAX + 1 - i)")
  show "wf (measure (\<lambda>(ord, i, st). INT_MAX + 1 - i))" by simp
next
  fix ord :: "nat list" and i :: nat and st :: "Point3f list \<times> (int \<rightharpoonup> int)"
    and x2 :: "nat \<times> Point3f list \<times> (int \<rightharpoonup> int)" and j :: nat and st' :: "Point3f list \<times> (int \<rightharpoonup> int)"
  assume a: "i < size_t_sub (length ord) 1" "\<not> INT_MAX \<le> i"
    "dedup_inner ord i (i + 1) st = Inr x2" "(j, st') = x2"
  from a(3,4) have "i + 1 \<le> j"
    using dedup_inner_advances [of ord i "i + 1" st j st'] by simp
  with a(2) show "((ord, j, st'), (ord, i, st)) \<in> measure (\<lambda>(ord, i, st). INT_MAX + 1 - i)"
    by simp
qed

declare dedup_outer.simps [simp del]

definition apply_alias :: "(int \<rightharpoonup> int) \<Rightarrow> int \<Rightarrow> int" where
  "apply_alias vertex_alias a = (case vertex_alias a of None \<Rightarrow> a | Some c \<Rightarrow> c)"

definition removeDuplicatedVertices :: "Mesh \<Rightarrow> error + Mesh" where
  "removeDuplicatedVertices m =
    (let vs = vertices m;
         comparator = (\<lambda>i1 i2. pt_less (vs ! i1) (vs ! i2))
     in if \<not> strict_weak_on comparator [0..<length vs] then Inl SortContract
        else
          (case dedup_outer (std_sort comparator [0..<length vs]) 0 (vs, Map.empty) of
             Inl e \<Rightarrow> Inl e
           | Inr (vs', vertex_alias) \<Rightarrow>
               Inr (m\<lparr>vertices := vs',
                      faces := map (map_face (apply_alias vertex_alias)) (faces m)\<rparr>)))"

text \<open>A vertex none of whose coordinates is NaN.\<close>

definition finite_pt :: "Point3f \<Rightarrow> bool" where
  "finite_pt p = (\<not> isnan_pt p)"

definition keepi :: "Point3f list \<Rightarrow> nat \<Rightarrow> bool" where
  "keepi vs i = (\<not> isnan_pt (vs ! i))"

definition kept_upto :: "Point3f list \<Rightarrow> nat \<Rightarrow> nat list" where
  "kept_upto vs k = filter (keepi vs) [0..<k]"

text \<open>The state of the copy loop after the first k vertices.\<close>

definition filled :: "'a list \<Rightarrow> Point3f list \<Rightarrow> nat \<Rightarrow> nat \<Rightarrow> 'a \<Rightarrow> 'a list" where
  "filled xs vs c k z = map ((!) xs) (kept_upto vs k) @ replicate (c - length (kept_upto vs k)) z"

definition copy_state :: "Mesh \<Rightarrow> nat \<Rightarrow> Mesh" where
  "copy_state m k =
    (let vs = vertices m; c = length (kept_upto vs (length vs)) in
     empty_mesh\<lparr>
       vertices := filled vs vs c k zero_vec,
       colors := (if hasColors m then filled (colors m) vs c k (Vec3b 0 0 0) else []),
       normals := (if hasNormals m then filled (normals m) vs c k zero_vec else []),
       texcoords := (if hasTexcoords m then filled (texcoords m) vs c k (Point2f (Finite 0) (Finite 0)) else [])\<rparr>)"

definition kept_of :: "Point3f list \<Rightarrow> 'a list \<Rightarrow> 'a list" where
  "kept_of vs xs = map ((!) xs) (kept_upto vs (length vs))"

text \<open>
  The invariant of C6: each optional per-vertex array is empty or as long as the
  vertex array.
\<close>

definition mesh_invariant :: "Mesh \<Rightarrow> bool" where
  "mesh_invariant m =
     ((colors m = [] \<or> length (colors m) = length (vertices m)) \<and>
      (normals m = [] \<or> length (normals m) = length (vertices m)) \<and>
      (texcoords m = [] \<or> length (texcoords m) = length (vertices m)))"

definition lone_vertex :: Mesh where
  "lone_vertex = empty_mesh\<lparr>vertices := [Point3f (Finite 0) (Finite 0) (Finite 0)]\<rparr>"








text \<open>
  What the two loops compute, read off the sorted order \<open>ord\<close> and the vertex array
  \<open>vs\<close> on entry. Position \<open>t\<close> of the order is a duplicate when its vertex equals the
  one before it; the run of a position starts at the last position before it that is
  no duplicate.
\<close>

definition dup_pos :: "nat list \<Rightarrow> Point3f list \<Rightarrow> nat \<Rightarrow> bool" where
  "dup_pos ord vs t = (0 < t \<and> pt_eq (vs ! (ord ! (t - 1))) (vs ! (ord ! t)))"

fun run_start :: "nat list \<Rightarrow> Point3f list \<Rightarrow> nat \<Rightarrow> nat" where
  "run_start ord vs 0 = 0"
| "run_start ord vs (Suc t) = (if dup_pos ord vs (Suc t) then run_start ord vs t else Suc t)"

fun sentinels_upto :: "nat list \<Rightarrow> Point3f list \<Rightarrow> nat \<Rightarrow> Point3f list" where
  "sentinels_upto ord vs 0 = vs"
| "sentinels_upto ord vs (Suc t) =
     (if dup_pos ord vs t then (sentinels_upto ord vs t)[ord ! t := infinite_point]
      else sentinels_upto ord vs t)"

fun alias_upto :: "nat list \<Rightarrow> Point3f list \<Rightarrow> nat \<Rightarrow> (int \<rightharpoonup> int)" where
  "alias_upto ord vs 0 = Map.empty"
| "alias_upto ord vs (Suc t) =
     (if dup_pos ord vs t then (alias_upto ord vs t)(int (ord ! t) \<mapsto> int (ord ! run_start ord vs t))
      else alias_upto ord vs t)"

text \<open>The sorted index array of \<^verbatim>\<open>removeDuplicatedVertices\<close>.\<close>

definition sorted_order :: "Point3f list \<Rightarrow> nat list" where
  "sorted_order vs = std_sort (\<lambda>i1 i2. pt_less (vs ! i1) (vs ! i2)) [0..<length vs]"

definition dup_mesh :: Mesh where
  "dup_mesh = empty_mesh\<lparr>
     vertices := [Point3f (Finite 1) (Finite 0) (Finite 0), Point3f (Finite 0) (Finite 0) (Finite 0),
                  Point3f (Finite 1) (Finite 0) (Finite 0), Point3f (Finite 0) (Finite 0) (Finite 0),
                  Point3f (Finite 2) (Finite 0) (Finite 0)],
     faces := [Face 0 1 4, Face 2 3 4]\<rparr>"

definition nan_between :: Mesh where
  "nan_between = empty_mesh\<lparr>
     vertices := [Point3f (Finite 1) (Finite 0) (Finite 0), infinite_point,
                  Point3f (Finite 1) (Finite 0) (Finite 0)],
     faces := [Face 0 1 2]\<rparr>"

text \<open>Deduplication followed by compaction.\<close>

definition dedup_then_compact :: "Mesh \<Rightarrow> error + Mesh" where
  "dedup_then_compact m =
     (case removeDuplicatedVertices m of
        Inl e \<Rightarrow> Inl e
      | Inr m1 \<Rightarrow> removeIsolatedVertices m1)"

definition faces_in_range :: "Mesh \<Rightarrow> bool" where
  "faces_in_range m = list_all (\<lambda>f. list_all (\<lambda>a. in_range a (vertices m)) (face_indices f)) (faces m)"

definition nan_and_point :: Mesh where
  "nan_and_point = empty_mesh\<lparr>
     vertices := [infinite_point, Point3f (Finite 0) (Finite 0) (Finite 0)],
     faces := [Face 0 1 1]\<rparr>"

definition lone_nan :: Mesh where
  "lone_nan = empty_mesh\<lparr>vertices := [infinite_point], faces := [Face 0 0 0]\<rparr>"

section \<open>The PLY codec\<close>

subsection \<open>\<^verbatim>\<open>Mesh::saveToPlyFile\<close>\<close>

text \<open>
  The text file is kept as its lines, a line as its tokens: a word, an integer
  written by \<^verbatim>\<open><<\<close>, or a float written by \<^verbatim>\<open><<\<close>. A float token stands for the number
  its text denotes. The stream has the default precision, so the text of a float has
  6 significant decimal digits: \<open>stream_float\<close> is the number that text denotes (ties
  are rounded up here; NaN is written as such).
\<close>

datatype tok = TWord string | TInt int | TFloat cfloat

definition round_sig6 :: "real \<Rightarrow> real" where
  "round_sig6 x =
     (if x = 0 then 0
      else of_int (round (x / 10 powr of_int (\<lfloor>log 10 \<bar>x\<bar>\<rfloor> - 5))) * 10 powr of_int (\<lfloor>log 10 \<bar>x\<bar>\<rfloor> - 5))"












subsection \<open>The reader\<close>

text \<open>
  Modelled from the spec: the PLY reader (\<^verbatim>\<open>ply.h\<close>) is not in the sources at hand. The
  spec: it exposes the element types of a file, answers whether an element declares a
  property, and fills fixed-layout records with typed values. Here a file is read as
  its elements; an element has a name, the names of its declared properties, and its
  rows; a row gives each property its value, a scalar token or a list with the count
  the reader stores in the 8-bit count field.
\<close>

datatype ply_value = Scalar tok | ListVal "8 word" "tok list"






record PlyVertex =
  ply_x :: cfloat
  ply_y :: cfloat
  ply_z :: cfloat
  ply_nx :: cfloat
  ply_ny :: cfloat
  ply_nz :: cfloat
  ply_u :: cfloat
  ply_v :: cfloat
  ply_r :: "8 word"
  ply_g :: "8 word"
  ply_b :: "8 word"

record PlyFace =
  nverts :: "8 word"
  verts :: "int list"
  ntexcoord :: "8 word"
  texcoord :: "cfloat list"





subsection \<open>\<^verbatim>\<open>Mesh::loadFromPlyFile\<close>\<close>

record load_state =
  has_colors :: bool
  has_normals :: bool
  has_texcoords :: bool
  has_faces :: bool
  ply_vertices :: "PlyVertex list"
  ply_faces :: "PlyFace list"








subsection \<open>Reading the text\<close>




fun parse_row :: "(string \<times> bool) list \<Rightarrow> tok list \<Rightarrow> (string \<times> ply_value) list option" where
  "parse_row [] ts = Some []"
| "parse_row ((name, False) # ps) [] = None"
| "parse_row ((name, False) # ps) (t # ts) =
     (case parse_row ps ts of None \<Rightarrow> None | Some r \<Rightarrow> Some ((name, Scalar t) # r))"
| "parse_row ((name, True) # ps) (TInt c # ts) =
     (if 0 \<le> c \<and> c < 256 \<and> nat c \<le> length ts
      then (case parse_row ps (drop (nat c) ts) of
              None \<Rightarrow> None
            | Some r \<Rightarrow> Some ((name, ListVal (word_of_int c) (take (nat c) ts)) # r))
      else None)"
| "parse_row ((name, True) # ps) ts = None"

fun parse_rows :: "(string \<times> bool) list \<Rightarrow> tok list list \<Rightarrow> (string \<times> ply_value) list list option" where
  "parse_rows ps [] = Some []"
| "parse_rows ps (l # ls) =
     (case parse_row ps l of
        None \<Rightarrow> None
      | Some r \<Rightarrow> (case parse_rows ps ls of None \<Rightarrow> None | Some rs \<Rightarrow> Some (r # rs)))"




















text \<open>A receiver with one vertex and its normal, and an operand with one vertex and no normals.\<close>

definition normal_receiver :: Mesh where
  "normal_receiver = empty_mesh\<lparr>
     vertices := [Point3f (Finite 0) (Finite 0) (Finite 0)],
     normals := [Point3f (Finite 0) (Finite 0) (Finite 1)]\<rparr>"

definition bare_operand :: Mesh where
  "bare_operand = empty_mesh\<lparr>vertices := [Point3f (Finite 1) (Finite 0) (Finite 0)]\<rparr>"

section \<open>Theorems\<close>




lemma plane_untouched:
  "colors (generate_mesh_from_plane isect m pl c s) = colors m"
  "normals (generate_mesh_from_plane isect m pl c s) = normals m"
  "texcoords (generate_mesh_from_plane isect m pl c s) = texcoords m"
  by (simp_all add: generate_mesh_from_plane_def Let_def)



text \<open>
  C5. \<^verbatim>\<open>addMesh\<close> is to raise "Cannot merge different kind of meshes." whenever the
  receiver has normals and the operand has none. The receiver \<open>normal_receiver\<close> has
  one vertex with a normal, the operand \<open>bare_operand\<close> one vertex and no normals. \<^verbatim>\<open>has_normals\<close> is read after
  the operand's vertex is appended, so it is false: nothing is raised, and the result
  has two vertices and one normal.
\<close>

theorem addMesh_normals_mismatch_not_raised:
  "hasNormals normal_receiver \<and> \<not> hasNormals bare_operand
   \<and> addMesh bare_operand normal_receiver =
       Inr (empty_mesh\<lparr>
         vertices := [Point3f (Finite 0) (Finite 0) (Finite 0), Point3f (Finite 1) (Finite 0) (Finite 0)],
         normals := [Point3f (Finite 0) (Finite 0) (Finite 1)]\<rparr>)"
  by (simp add: addMesh_def normal_receiver_def bare_operand_def empty_mesh_def
      hasColors_def hasNormals_def Let_def)

subsection \<open>Points without NaN\<close>



lemma finite_ptE:
  assumes "finite_pt p"
  obtains a b c where "p = Point3f (Finite a) (Finite b) (Finite c)"
proof -
  obtain x y z where p: "p = Point3f x y z" by (cases p)
  with assms have "\<not> isnan x" "\<not> isnan y" "\<not> isnan z"
    by (simp_all add: finite_pt_def isnan_pt_def)
  then obtain a b c where "x = Finite a" "y = Finite b" "z = Finite c"
    by (cases x; cases y; cases z) simp_all
  with p that show thesis by blast
qed

lemma pt_eq_finite: "finite_pt p \<Longrightarrow> finite_pt q \<Longrightarrow> pt_eq p q \<longleftrightarrow> p = q"
  by (erule finite_ptE, erule finite_ptE) (simp add: pt_eq_def)

lemma feq_sym: "feq a b \<Longrightarrow> feq b a"
  by (cases a; cases b) simp_all

lemma feq_trans: "feq a b \<Longrightarrow> feq b c \<Longrightarrow> feq a c"
  by (cases a; cases b; cases c) simp_all

lemma pt_eq_sym: "pt_eq p q \<Longrightarrow> pt_eq q p"
  by (auto simp: pt_eq_def intro: feq_sym)

lemma pt_eq_trans: "pt_eq p q \<Longrightarrow> pt_eq q r \<Longrightarrow> pt_eq p r"
  by (auto simp: pt_eq_def intro: feq_trans)

lemma pt_eq_infinite [simp]: "\<not> pt_eq infinite_point q" "\<not> pt_eq q infinite_point"
  by (cases q; cases "pt_x q"; simp add: pt_eq_def infinite_point_def)+

lemma pt_less_irrefl: "\<not> pt_less p p"
  by (cases p; cases "pt_x p"; cases "pt_y p"; cases "pt_z p") (simp_all add: pt_less_def)

lemma pt_less_trans:
  "finite_pt p \<Longrightarrow> finite_pt q \<Longrightarrow> finite_pt r \<Longrightarrow> pt_less p q \<Longrightarrow> pt_less q r \<Longrightarrow> pt_less p r"
  by (erule finite_ptE, erule finite_ptE, erule finite_ptE)
     (auto simp: pt_less_def split: if_splits)

lemma pt_less_total:
  "finite_pt p \<Longrightarrow> finite_pt q \<Longrightarrow> \<not> pt_less p q \<Longrightarrow> \<not> pt_less q p \<Longrightarrow> p = q"
  by (erule finite_ptE, erule finite_ptE)
     (auto simp: pt_less_def split: if_splits)


subsection \<open>The mesh without vertices\<close>


lemma size_t_sub_0_1: "size_t_sub 0 (Suc 0) = 18446744073709551615"
  by (simp add: size_t_sub_def)

lemma dedup_outer_empty:
  "i \<le> INT_MAX \<Longrightarrow> dedup_outer [] i st = Inl SignedOverflow"
proof (induction "INT_MAX - i" arbitrary: i st)
  case 0
  then have "INT_MAX \<le> i" "i < 18446744073709551615" by (simp_all add: INT_MAX_def)
  then show ?case
    by (subst dedup_outer.simps) (simp add: size_t_sub_0_1 INT_MAX_def)
next
  case (Suc k)
  then have lt: "\<not> INT_MAX \<le> i" and k: "k = INT_MAX - (i + 1)" and le: "i + 1 \<le> INT_MAX"
    by simp_all
  obtain vs al where st: "st = (vs, al)" by (cases st)
  have inner: "dedup_inner [] i (i + 1) st = Inr (i + 1, st)"
    unfolding st by (subst dedup_inner.simps) simp
  have "dedup_outer [] i st = dedup_outer [] (i + 1) st"
    using lt inner Suc.prems
    by (subst dedup_outer.simps) (simp add: size_t_sub_0_1 INT_MAX_def)
  also have "\<dots> = Inl SignedOverflow"
    using Suc.hyps(1) [OF k le] .
  finally show ?case .
qed

lemma removeDuplicatedVertices_no_vertices:
  "vertices m = [] \<Longrightarrow> removeDuplicatedVertices m = Inl SignedOverflow"
  by (simp add: removeDuplicatedVertices_def strict_weak_on_def std_sort_def dedup_outer_empty)

text \<open>
  C9. \<^verbatim>\<open>removeDuplicatedVertices\<close> is to end, after one pass, on every mesh, and to
  leave the mesh without vertices as it is. On that mesh the loop bound
  \<^verbatim>\<open>ordered_indices.size() - 1\<close> wraps to the largest \<^verbatim>\<open>size_t\<close>, the loop counts
  \<^verbatim>\<open>i\<close> up to \<^verbatim>\<open>INT_MAX\<close> and increments it once more: the call does not return a
  mesh.
\<close>

theorem removeDuplicatedVertices_empty_mesh:
  "removeDuplicatedVertices empty_mesh = Inl SignedOverflow"
  by (rule removeDuplicatedVertices_no_vertices) (simp add: empty_mesh_def)

subsection \<open>The compaction, in closed form\<close>

lemma kept_upto_Suc:
  "kept_upto vs (Suc k) = (if keepi vs k then kept_upto vs k @ [k] else kept_upto vs k)"
  by (simp add: kept_upto_def)

lemma kept_upto_0 [simp]: "kept_upto vs 0 = []"
  by (simp add: kept_upto_def)

lemma kept_upto_mono: "k \<le> n \<Longrightarrow> length (kept_upto vs k) \<le> length (kept_upto vs n)"
proof (induction n)
  case 0
  then show ?case by simp
next
  case (Suc n)
  then show ?case
    by (cases "k = Suc n") (auto simp: kept_upto_Suc)
qed

lemma kept_upto_take:
  "k \<le> length vs \<Longrightarrow> length (kept_upto vs k) = length (filter (\<lambda>p. \<not> isnan_pt p) (take k vs))"
  by (induction k) (auto simp: kept_upto_Suc keepi_def take_Suc_conv_app_nth)

lemma kept_upto_filter:
  "map ((!) vs) (kept_upto vs (length vs)) = filter (\<lambda>p. \<not> isnan_pt p) vs"
proof -
  have "filter (\<lambda>p. \<not> isnan_pt p) (map ((!) vs) [0..<length vs])
        = map ((!) vs) (filter ((\<lambda>p. \<not> isnan_pt p) \<circ> (!) vs) [0..<length vs])"
    by (rule filter_map)
  moreover have "(\<lambda>p. \<not> isnan_pt p) \<circ> (!) vs = keepi vs"
    by (auto simp: keepi_def)
  ultimately show ?thesis
    by (simp add: kept_upto_def map_nth)
qed

lemma new_indices_from_length [simp]: "length (new_indices_from cur vs) = length vs"
  by (induction vs arbitrary: cur) auto

lemma new_indices_from_nth_take:
  "k < length vs \<Longrightarrow> new_indices_from cur vs ! k =
     (if isnan_pt (vs ! k) then - 1
      else cur + int (length (filter (\<lambda>p. \<not> isnan_pt p) (take k vs))))"
proof (induction vs arbitrary: cur k)
  case Nil
  then show ?case by simp
next
  case (Cons v vs)
  show ?case
  proof (cases k)
    case 0
    then show ?thesis by simp
  next
    case (Suc k')
    with Cons.prems have "k' < length vs" by simp
    from Cons.IH [OF this] Suc show ?thesis by simp
  qed
qed

lemma new_indices_from_nth:
  "k < length vs \<Longrightarrow> new_indices_from cur vs ! k =
     (if keepi vs k then cur + int (length (kept_upto vs k)) else - 1)"
  by (simp add: new_indices_from_nth_take kept_upto_take keepi_def)

lemma cur_index_from_count:
  "cur_index_from cur vs = cur + int (length (filter (\<lambda>p. \<not> isnan_pt p) vs))"
  by (induction vs arbitrary: cur) auto

lemma cur_index_kept: "nat (cur_index_from 0 vs) = length (kept_upto vs (length vs))"
  by (simp add: cur_index_from_count kept_upto_take)

lemma update_fill:
  "r > 0 \<Longrightarrow> (A @ replicate r z)[length A := x] = (A @ [x]) @ replicate (r - 1) z"
  by (cases r) (simp_all add: list_update_append)

lemma filled_step_keep:
  assumes "keepi vs k" "length (kept_upto vs (Suc k)) \<le> c"
  shows "(filled xs vs c k z)[length (kept_upto vs k) := xs ! k] = filled xs vs c (Suc k) z"
proof -
  from assms have r: "c - length (kept_upto vs k) > 0"
    by (simp add: kept_upto_Suc)
  have "(map ((!) xs) (kept_upto vs k) @ replicate (c - length (kept_upto vs k)) z)
          [length (map ((!) xs) (kept_upto vs k)) := xs ! k]
        = (map ((!) xs) (kept_upto vs k) @ [xs ! k]) @ replicate (c - length (kept_upto vs k) - 1) z"
    using r by (rule update_fill)
  with assms(1) show ?thesis
    by (simp add: filled_def kept_upto_Suc)
qed

lemma filled_step_drop:
  "\<not> keepi vs k \<Longrightarrow> filled xs vs c (Suc k) z = filled xs vs c k z"
  by (simp add: filled_def kept_upto_Suc)

lemma copy_vertex_step:
  assumes "k < length (vertices m)"
  shows "copy_vertex m (new_indices_from 0 (vertices m)) k (copy_state m k) = copy_state m (Suc k)"
proof (cases "keepi (vertices m) k")
  case True
  have le: "length (kept_upto (vertices m) (Suc k)) \<le> length (kept_upto (vertices m) (length (vertices m)))"
    using assms by (intro kept_upto_mono) simp
  have ni: "new_indices_from 0 (vertices m) ! k = int (length (kept_upto (vertices m) k))"
    using assms True by (simp add: new_indices_from_nth)
  show ?thesis
    using True le
    by (simp add: copy_vertex_def ni copy_state_def Let_def filled_step_keep)
next
  case False
  then have ni: "new_indices_from 0 (vertices m) ! k = - 1"
    using assms by (simp add: new_indices_from_nth)
  show ?thesis
    using False by (simp add: copy_vertex_def ni copy_state_def Let_def filled_step_drop)
qed

lemma copy_loop:
  "k \<le> length (vertices m) \<Longrightarrow>
   fold (copy_vertex m (new_indices_from 0 (vertices m))) [0..<k] (copy_state m 0) = copy_state m k"
proof (induction k)
  case 0
  then show ?case by simp
next
  case (Suc k)
  then have "fold (copy_vertex m (new_indices_from 0 (vertices m))) [0..<k] (copy_state m 0) = copy_state m k"
    and "k < length (vertices m)" by simp_all
  then show ?case
    by (simp add: copy_vertex_step)
qed

lemma filled_full: "filled xs vs (length (kept_upto vs k)) k z = map ((!) xs) (kept_upto vs k)"
  by (simp add: filled_def)

lemma copy_state_0:
  "copy_state m 0 = empty_mesh\<lparr>
           vertices := replicate (nat (cur_index_from 0 (vertices m))) zero_vec,
           colors := (if hasColors m then replicate (nat (cur_index_from 0 (vertices m))) (Vec3b 0 0 0) else []),
           normals := (if hasNormals m then replicate (nat (cur_index_from 0 (vertices m))) zero_vec else []),
           texcoords := (if hasTexcoords m then replicate (nat (cur_index_from 0 (vertices m))) (Point2f (Finite 0) (Finite 0)) else [])\<rparr>"
  by (simp add: copy_state_def Let_def filled_def cur_index_kept)

lemma removeIsolatedVertices_result:
  assumes "removeIsolatedVertices m = Inr m'"
  shows "vertices m' = filter (\<lambda>p. \<not> isnan_pt p) (vertices m)"
    and "colors m' = (if hasColors m then kept_of (vertices m) (colors m) else [])"
    and "normals m' = (if hasNormals m then kept_of (vertices m) (normals m) else [])"
    and "texcoords m' = (if hasTexcoords m then kept_of (vertices m) (texcoords m) else [])"
    and "remap_faces (new_indices_from 0 (vertices m)) (faces m) = Inr (faces m')"
    and "face_texcoords m' = face_texcoords m" and "texture m' = texture m"
proof -
  have loop: "fold (copy_vertex m (new_indices_from 0 (vertices m))) [0..<length (vertices m)] (copy_state m 0)
      = copy_state m (length (vertices m))"
    by (rule copy_loop) simp
  from assms obtain fs where fs: "remap_faces (new_indices_from 0 (vertices m)) (faces m) = Inr fs"
    and m': "m' = m\<lparr>vertices := vertices (copy_state m (length (vertices m))),
                     colors := colors (copy_state m (length (vertices m))),
                     normals := normals (copy_state m (length (vertices m))),
                     texcoords := texcoords (copy_state m (length (vertices m))),
                     faces := fs\<rparr>"
    unfolding removeIsolatedVertices_def Let_def copy_state_0 [symmetric] loop
    by (auto split: sum.splits)
  show "vertices m' = filter (\<lambda>p. \<not> isnan_pt p) (vertices m)"
    by (simp add: m' copy_state_def Let_def filled_full kept_upto_filter)
  show "colors m' = (if hasColors m then kept_of (vertices m) (colors m) else [])"
    by (simp add: m' copy_state_def Let_def filled_full kept_of_def)
  show "normals m' = (if hasNormals m then kept_of (vertices m) (normals m) else [])"
    by (simp add: m' copy_state_def Let_def filled_full kept_of_def)
  show "texcoords m' = (if hasTexcoords m then kept_of (vertices m) (texcoords m) else [])"
    by (simp add: m' copy_state_def Let_def filled_full kept_of_def)
  show "remap_faces (new_indices_from 0 (vertices m)) (faces m) = Inr (faces m')"
    by (simp add: m' fs)
  show "face_texcoords m' = face_texcoords m" "texture m' = texture m"
    by (simp_all add: m')
qed

subsection \<open>Lengths and the invariant\<close>







lemma kept_of_length: "length (kept_of vs xs) = length (filter (\<lambda>p. \<not> isnan_pt p) vs)"
  by (simp add: kept_of_def kept_upto_take)



lemma inv_removeIsolated:
  "removeIsolatedVertices m = Inr m' \<Longrightarrow> mesh_invariant m'"
  by (simp add: mesh_invariant_def removeIsolatedVertices_result kept_of_length)







subsection \<open>Compaction keeps what is not NaN\<close>

lemma remap_face_result:
  "remap_face ni f = Inr f' \<Longrightarrow>
     f' = map_face (\<lambda>a. ni ! nat a) f \<and> list_all (\<lambda>a. in_range a ni) (face_indices f)"
  by (cases f) (auto simp: remap_index_def split: sum.splits if_splits)

lemma remap_faces_result:
  "remap_faces ni fs = Inr fs' \<Longrightarrow>
     fs' = map (map_face (\<lambda>a. ni ! nat a)) fs \<and>
     list_all (\<lambda>f. list_all (\<lambda>a. in_range a ni) (face_indices f)) fs"
proof (induction fs arbitrary: fs')
  case Nil
  then show ?case by simp
next
  case (Cons f fs)
  then obtain f1 fs1 where 1: "remap_face ni f = Inr f1" and 2: "remap_faces ni fs = Inr fs1"
    and 3: "fs' = f1 # fs1"
    by (auto split: sum.splits)
  from remap_face_result [OF 1] Cons.IH [OF 2] 3 show ?case by simp
qed

lemma remap_face_in_range:
  "list_all (\<lambda>a. in_range a ni) (face_indices f) \<Longrightarrow>
     remap_face ni f = Inr (map_face (\<lambda>a. ni ! nat a) f)"
  by (cases f) (simp add: remap_index_def)

lemma remap_faces_in_range:
  "list_all (\<lambda>f. list_all (\<lambda>a. in_range a ni) (face_indices f)) fs \<Longrightarrow>
     remap_faces ni fs = Inr (map (map_face (\<lambda>a. ni ! nat a)) fs)"
  by (induction fs) (simp_all add: remap_face_in_range)

lemma kept_upto_prefix:
  "k \<le> n \<Longrightarrow> kept_upto vs n = kept_upto vs k @ filter (keepi vs) [k..<n]"
proof -
  assume "k \<le> n"
  then have "[0..<n] = [0..<k] @ [k..<n]"
    by (metis le_add_diff_inverse upt_add_eq_append zero_le)
  then show ?thesis by (simp add: kept_upto_def)
qed

lemma kept_upto_nth:
  assumes "a < n" "keepi vs a"
  shows "kept_upto vs n ! length (kept_upto vs a) = a"
proof -
  from assms(1) have "kept_upto vs n = kept_upto vs (Suc a) @ filter (keepi vs) [Suc a..<n]"
    by (intro kept_upto_prefix) simp
  with assms(2) have "kept_upto vs n = kept_upto vs a @ a # filter (keepi vs) [Suc a..<n]"
    by (simp add: kept_upto_Suc)
  then show ?thesis by simp
qed

lemma kept_upto_lt:
  assumes "a < n" "keepi vs a"
  shows "length (kept_upto vs a) < length (kept_upto vs n)"
proof -
  from assms(1) have "length (kept_upto vs (Suc a)) \<le> length (kept_upto vs n)"
    by (intro kept_upto_mono) simp
  with assms(2) show ?thesis by (simp add: kept_upto_Suc)
qed

lemma kept_of_nth:
  assumes "a < length vs" "keepi vs a"
  shows "kept_of vs xs ! length (kept_upto vs a) = xs ! a"
  using assms by (simp add: kept_of_def kept_upto_lt kept_upto_nth)

lemma kept_of_vertices: "kept_of vs vs = filter (\<lambda>p. \<not> isnan_pt p) vs"
  by (simp add: kept_of_def kept_upto_filter)

text \<open>
  C3, as the code has it. \<^verbatim>\<open>removeIsolatedVertices\<close> never looks at the faces to decide
  what to keep: when it returns, the output vertices are exactly the input vertices
  that are not NaN, in their order, so their number is the number of such vertices.
  Every face index named a vertex of the input; it is replaced by \<open>-1\<close> when that
  vertex was dropped and by the vertex's place in the output when it was kept.
\<close>

theorem removeIsolatedVertices_keeps_non_nan:
  assumes "removeIsolatedVertices m = Inr m'"
  shows "vertices m' = filter (\<lambda>p. \<not> isnan_pt p) (vertices m)
       \<and> length (vertices m') = length (filter (\<lambda>p. \<not> isnan_pt p) (vertices m))
       \<and> list_all (\<lambda>p. \<not> isnan_pt p) (vertices m')
       \<and> faces m' = map (map_face (\<lambda>a. new_indices_from 0 (vertices m) ! nat a)) (faces m)
       \<and> (\<forall>f \<in> set (faces m). \<forall>a \<in> set (face_indices f).
            in_range a (vertices m) \<and>
            (if isnan_pt (vertices m ! nat a)
             then new_indices_from 0 (vertices m) ! nat a = - 1
             else in_range (new_indices_from 0 (vertices m) ! nat a) (vertices m') \<and>
                  vertices m' ! nat (new_indices_from 0 (vertices m) ! nat a) = vertices m ! nat a))"
proof -
  let ?vs = "vertices m" and ?ni = "new_indices_from 0 (vertices m)"
  have v: "vertices m' = filter (\<lambda>p. \<not> isnan_pt p) ?vs"
    using assms by (rule removeIsolatedVertices_result)
  have "remap_faces ?ni (faces m) = Inr (faces m')"
    using assms by (rule removeIsolatedVertices_result)
  from remap_faces_result [OF this]
  have f: "faces m' = map (map_face (\<lambda>a. ?ni ! nat a)) (faces m)"
    and r: "list_all (\<lambda>f. list_all (\<lambda>a. in_range a ?ni) (face_indices f)) (faces m)"
    by simp_all
  have idx: "in_range a ?vs \<and>
            (if isnan_pt (?vs ! nat a) then ?ni ! nat a = - 1
             else in_range (?ni ! nat a) (vertices m') \<and> vertices m' ! nat (?ni ! nat a) = ?vs ! nat a)"
    if "f \<in> set (faces m)" "a \<in> set (face_indices f)" for f a
  proof -
    from r that have ir: "in_range a ?vs"
      by (auto simp: list_all_iff in_range_def)
    then have lt: "nat a < length ?vs" by (simp add: in_range_def)
    show ?thesis
    proof (cases "isnan_pt (?vs ! nat a)")
      case True
      with lt ir show ?thesis by (simp add: new_indices_from_nth keepi_def)
    next
      case False
      then have k: "keepi ?vs (nat a)" by (simp add: keepi_def)
      have ni: "?ni ! nat a = int (length (kept_upto ?vs (nat a)))"
        using lt k by (simp add: new_indices_from_nth)
      have "vertices m' = kept_of ?vs ?vs" by (simp add: v kept_of_vertices)
      with kept_of_nth [OF lt k, of ?vs] kept_upto_lt [OF lt k] ir False
      show ?thesis
        by (simp add: ni in_range_def kept_of_def)
    qed
  qed
  from idx have all: "\<forall>f \<in> set (faces m). \<forall>a \<in> set (face_indices f).
            in_range a ?vs \<and>
            (if isnan_pt (?vs ! nat a) then ?ni ! nat a = - 1
             else in_range (?ni ! nat a) (vertices m') \<and> vertices m' ! nat (?ni ! nat a) = ?vs ! nat a)"
    by blast
  have len: "length (vertices m') = length (filter (\<lambda>p. \<not> isnan_pt p) ?vs)"
    by (simp add: v)
  have nn: "list_all (\<lambda>p. \<not> isnan_pt p) (vertices m')"
    by (simp add: v list_all_iff)
  from v len nn f all show ?thesis by blast
qed

theorem removeIsolatedVertices_keeps_non_nan_witness:
  "removeIsolatedVertices
     (empty_mesh\<lparr>vertices := [Point3f (Finite 1) (Finite 0) (Finite 0), infinite_point,
                               Point3f (Finite 2) (Finite 0) (Finite 0), Point3f (Finite 3) (Finite 0) (Finite 0)],
                  faces := [Face 0 1 2]\<rparr>)
   = Inr (empty_mesh\<lparr>vertices := [Point3f (Finite 1) (Finite 0) (Finite 0),
                               Point3f (Finite 2) (Finite 0) (Finite 0), Point3f (Finite 3) (Finite 0) (Finite 0)],
                  faces := [Face 0 (- 1) 1]\<rparr>)
   \<and> length (vertices (empty_mesh\<lparr>vertices := [Point3f (Finite 1) (Finite 0) (Finite 0),
                               Point3f (Finite 2) (Finite 0) (Finite 0), Point3f (Finite 3) (Finite 0) (Finite 0)],
                  faces := [Face 0 (- 1) 1]\<rparr>)) = 3"
proof -
  let ?m = "empty_mesh\<lparr>vertices := [Point3f (Finite 1) (Finite 0) (Finite 0), infinite_point,
                               Point3f (Finite 2) (Finite 0) (Finite 0), Point3f (Finite 3) (Finite 0) (Finite 0)],
                  faces := [Face 0 1 2]\<rparr>"
  let ?m' = "empty_mesh\<lparr>vertices := [Point3f (Finite 1) (Finite 0) (Finite 0),
                               Point3f (Finite 2) (Finite 0) (Finite 0), Point3f (Finite 3) (Finite 0) (Finite 0)],
                  faces := [Face 0 (- 1) 1]\<rparr>"
  have e: "removeIsolatedVertices ?m = Inr ?m'"
    by (simp add: removeIsolatedVertices_def empty_mesh_def Let_def isnan_pt_def infinite_point_def
        hasColors_def hasNormals_def hasTexcoords_def copy_vertex_def remap_index_def in_range_def
        upt_rec zero_vec_def eval_nat_numeral)
  from removeIsolatedVertices_keeps_non_nan [OF e] e show ?thesis
    by (simp add: isnan_pt_def infinite_point_def)
qed

theorem removeIsolatedVertices_keeps_unreferenced:
  "removeIsolatedVertices lone_vertex = Inr lone_vertex
   \<and> vertices lone_vertex = [Point3f (Finite 0) (Finite 0) (Finite 0)]
   \<and> faces lone_vertex = []"
  by (simp add: removeIsolatedVertices_def lone_vertex_def empty_mesh_def Let_def isnan_pt_def
        hasColors_def hasNormals_def hasTexcoords_def copy_vertex_def zero_vec_def)

subsection \<open>The invariant under the operations\<close>






subsection \<open>Normals from faces\<close>








subsection \<open>The sort\<close>

lemma strict_weak_on_irrefl: "strict_weak_on lt xs \<Longrightarrow> a \<in> set xs \<Longrightarrow> \<not> lt a a"
  by (simp add: strict_weak_on_def list_all_iff)

lemma strict_weak_on_trans:
  "strict_weak_on lt xs \<Longrightarrow> a \<in> set xs \<Longrightarrow> b \<in> set xs \<Longrightarrow> c \<in> set xs \<Longrightarrow>
   lt a b \<Longrightarrow> lt b c \<Longrightarrow> lt a c"
  unfolding strict_weak_on_def list_all_iff by meson

lemma insert_sorted_set [simp]: "set (insert_sorted lt x ys) = insert x (set ys)"
  by (induction ys) auto

lemma insert_sorted_length [simp]: "length (insert_sorted lt x ys) = Suc (length ys)"
  by (induction ys) auto

lemma insert_sorted_distinct [simp]:
  "distinct (insert_sorted lt x ys) = (x \<notin> set ys \<and> distinct ys)"
  by (induction ys) auto

lemma insert_sorted_sorted:
  assumes "strict_weak_on lt zs" "x \<in> set zs" "set ys \<subseteq> set zs"
    "sorted_wrt (\<lambda>a b. \<not> lt b a) ys"
  shows "sorted_wrt (\<lambda>a b. \<not> lt b a) (insert_sorted lt x ys)"
  using assms(3,4)
proof (induction ys)
  case Nil
  then show ?case by simp
next
  case (Cons y ys)
  show ?case
  proof (cases "lt x y")
    case True
    have "\<not> lt y x"
      using True strict_weak_on_trans [OF assms(1), of x y x] strict_weak_on_irrefl [OF assms(1), of x]
        assms(2) Cons.prems(1) by auto
    moreover have "\<not> lt z x" if "z \<in> set ys" for z
    proof
      assume "lt z x"
      with True have "lt z y"
        using strict_weak_on_trans [OF assms(1), of z x y] that assms(2) Cons.prems(1) by auto
      with Cons.prems(2) that show False by auto
    qed
    ultimately show ?thesis
      using True Cons.prems(2) by auto
  next
    case False
    with Cons show ?thesis by auto
  qed
qed

lemma fold_insert_sorted:
  assumes "strict_weak_on lt zs"
  shows "set xs \<subseteq> set zs \<Longrightarrow> set acc \<subseteq> set zs \<Longrightarrow> sorted_wrt (\<lambda>a b. \<not> lt b a) acc \<Longrightarrow>
     sorted_wrt (\<lambda>a b. \<not> lt b a) (fold (insert_sorted lt) xs acc)"
proof (induction xs arbitrary: acc)
  case Nil
  then show ?case by simp
next
  case (Cons x xs)
  have "sorted_wrt (\<lambda>a b. \<not> lt b a) (insert_sorted lt x acc)"
    using assms Cons.prems by (intro insert_sorted_sorted [where zs = zs]) auto
  with Cons show ?case by simp
qed

lemma fold_insert_set: "set (fold (insert_sorted lt) xs acc) = set xs \<union> set acc"
  by (induction xs arbitrary: acc) auto

lemma fold_insert_length: "length (fold (insert_sorted lt) xs acc) = length xs + length acc"
  by (induction xs arbitrary: acc) auto

lemma fold_insert_distinct:
  "distinct (fold (insert_sorted lt) xs acc) = (distinct xs \<and> distinct acc \<and> set xs \<inter> set acc = {})"
  by (induction xs arbitrary: acc) auto

lemma std_sort_set [simp]: "set (std_sort lt xs) = set xs"
  by (simp add: std_sort_def fold_insert_set)

lemma std_sort_length [simp]: "length (std_sort lt xs) = length xs"
  by (simp add: std_sort_def fold_insert_length)

lemma std_sort_distinct [simp]: "distinct (std_sort lt xs) = distinct xs"
  by (simp add: std_sort_def fold_insert_distinct)

lemma std_sort_sorted:
  "strict_weak_on lt xs \<Longrightarrow> sorted_wrt (\<lambda>a b. \<not> lt b a) (std_sort lt xs)"
  unfolding std_sort_def by (rule fold_insert_sorted [where zs = xs]) simp_all

lemma std_sort_nth_sorted:
  assumes "strict_weak_on lt xs" "s \<le> t" "t < length xs"
  shows "\<not> lt (std_sort lt xs ! t) (std_sort lt xs ! s)"
proof (cases "s = t")
  case True
  have "std_sort lt xs ! t \<in> set xs"
    using assms(3) by (metis nth_mem std_sort_length std_sort_set)
  with True strict_weak_on_irrefl [OF assms(1)] show ?thesis by simp
next
  case False
  with assms(2) have "s < t" by simp
  with std_sort_sorted [OF assms(1)] assms(3) show ?thesis
    by (simp add: sorted_wrt_iff_nth_less)
qed

lemma finite_strict_weak:
  assumes "list_all finite_pt vs"
  shows "strict_weak_on (\<lambda>i1 i2. pt_less (vs ! i1) (vs ! i2)) [0..<length vs]"
proof -
  have fin: "finite_pt (vs ! a)" if "a < length vs" for a
    using assms that by (simp add: list_all_length)
  have tr: "pt_less (vs ! a) (vs ! c)"
    if "a < length vs" "b < length vs" "c < length vs" "pt_less (vs ! a) (vs ! b)" "pt_less (vs ! b) (vs ! c)"
    for a b c
    using that(4,5) fin [OF that(1)] fin [OF that(2)] fin [OF that(3)] by (rule_tac pt_less_trans)
  have inc: "\<not> pt_less (vs ! a) (vs ! c) \<and> \<not> pt_less (vs ! c) (vs ! a)"
    if "a < length vs" "b < length vs" "c < length vs"
      "\<not> pt_less (vs ! a) (vs ! b)" "\<not> pt_less (vs ! b) (vs ! a)"
      "\<not> pt_less (vs ! b) (vs ! c)" "\<not> pt_less (vs ! c) (vs ! b)"
    for a b c
  proof -
    have "vs ! a = vs ! b"
      using fin [OF that(1)] fin [OF that(2)] that(4,5) by (rule pt_less_total)
    moreover have "vs ! b = vs ! c"
      using fin [OF that(2)] fin [OF that(3)] that(6,7) by (rule pt_less_total)
    ultimately show ?thesis by (simp add: pt_less_irrefl)
  qed
  show ?thesis
    unfolding strict_weak_on_def list_all_iff
  proof (intro conjI ballI)
    fix a assume "a \<in> set [0..<length vs]"
    show "\<not> pt_less (vs ! a) (vs ! a)" by (rule pt_less_irrefl)
  next
    fix a b c assume "a \<in> set [0..<length vs]" "b \<in> set [0..<length vs]" "c \<in> set [0..<length vs]"
    then have l: "a < length vs" "b < length vs" "c < length vs" by simp_all
    show "if pt_less (vs ! a) (vs ! b) \<and> pt_less (vs ! b) (vs ! c) then pt_less (vs ! a) (vs ! c) else True"
      using tr [OF l] by simp
    show "if \<not> pt_less (vs ! a) (vs ! b) \<and> \<not> pt_less (vs ! b) (vs ! a) \<and>
             \<not> pt_less (vs ! b) (vs ! c) \<and> \<not> pt_less (vs ! c) (vs ! b)
          then \<not> pt_less (vs ! a) (vs ! c) \<and> \<not> pt_less (vs ! c) (vs ! a) else True"
      using inc [OF l] by simp
  qed
qed

subsection \<open>Runs of equal vertices\<close>

lemma dup_pos_0 [simp]: "\<not> dup_pos ord vs 0"
  by (simp add: dup_pos_def)

lemma run_start_le: "run_start ord vs t \<le> t"
  by (induction t) auto

lemma run_start_no_dup: "\<not> dup_pos ord vs (run_start ord vs t)"
  by (induction t) auto

lemma run_start_self: "\<not> dup_pos ord vs t \<Longrightarrow> run_start ord vs t = t"
  by (cases t) auto

lemma run_start_eq:
  "dup_pos ord vs t \<Longrightarrow> pt_eq (vs ! (ord ! run_start ord vs t)) (vs ! (ord ! t))"
proof (induction t)
  case 0
  then show ?case by simp
next
  case (Suc t)
  then have e: "pt_eq (vs ! (ord ! t)) (vs ! (ord ! Suc t))"
    by (simp add: dup_pos_def)
  show ?case
  proof (cases "dup_pos ord vs t")
    case True
    from Suc.IH [OF True] e Suc.prems show ?thesis
      by (auto intro: pt_eq_trans)
  next
    case False
    with e Suc.prems show ?thesis by (simp add: run_start_self)
  qed
qed

lemma run_start_lt: "dup_pos ord vs t \<Longrightarrow> run_start ord vs t < t"
  using run_start_le [of ord vs t] run_start_no_dup [of ord vs t]
  by (cases "run_start ord vs t = t") auto

text \<open>Inside a run every position carries the vertex of the run's first position.\<close>

lemma run_eq:
  "i \<le> u \<Longrightarrow> \<forall>t. i < t \<and> t \<le> u \<longrightarrow> dup_pos ord vs t \<Longrightarrow>
   u = i \<or> pt_eq (vs ! (ord ! i)) (vs ! (ord ! u))"
proof (induction u)
  case 0
  then show ?case by simp
next
  case (Suc u)
  show ?case
  proof (cases "i = Suc u")
    case True
    then show ?thesis by simp
  next
    case False
    with Suc.prems have iu: "i \<le> u" and d: "dup_pos ord vs (Suc u)"
      and rest: "\<forall>t. i < t \<and> t \<le> u \<longrightarrow> dup_pos ord vs t"
      by auto
    from d have e: "pt_eq (vs ! (ord ! u)) (vs ! (ord ! Suc u))"
      by (simp add: dup_pos_def)
    from Suc.IH [OF iu rest] e show ?thesis
      by (auto intro: pt_eq_trans)
  qed
qed

lemma run_start_run:
  "i \<le> u \<Longrightarrow> \<not> dup_pos ord vs i \<Longrightarrow> \<forall>t. i < t \<and> t \<le> u \<longrightarrow> dup_pos ord vs t \<Longrightarrow>
   run_start ord vs u = i"
proof (induction u)
  case 0
  then show ?case by simp
next
  case (Suc u)
  show ?case
  proof (cases "i = Suc u")
    case True
    with Suc.prems(2) show ?thesis by (simp add: run_start_self)
  next
    case False
    with Suc.prems have iu: "i \<le> u" and d: "dup_pos ord vs (Suc u)"
      and rest: "\<forall>t. i < t \<and> t \<le> u \<longrightarrow> dup_pos ord vs t"
      by auto
    from Suc.IH [OF iu Suc.prems(2) rest] d show ?thesis by simp
  qed
qed

text \<open>The test of the inner loop is the test for a duplicate position.\<close>

lemma inner_test:
  assumes "i < j" "\<forall>t. i < t \<and> t < j \<longrightarrow> dup_pos ord vs t"
  shows "pt_eq (vs ! (ord ! i)) (vs ! (ord ! j)) = dup_pos ord vs j"
proof (cases "j = Suc i")
  case True
  then show ?thesis by (simp add: dup_pos_def)
next
  case False
  with assms(1) have "i \<le> j - 1" "i \<noteq> j - 1" by simp_all
  moreover have "\<forall>t. i < t \<and> t \<le> j - 1 \<longrightarrow> dup_pos ord vs t"
    using assms by auto
  ultimately have e: "pt_eq (vs ! (ord ! i)) (vs ! (ord ! (j - 1)))"
    using run_eq [of i "j - 1" ord vs] by blast
  show ?thesis
    using e assms(1) by (auto simp: dup_pos_def intro: pt_eq_trans pt_eq_sym)
qed

lemma sentinels_upto_length [simp]: "length (sentinels_upto ord vs j) = length vs"
  by (induction j) auto

lemma sentinels_upto_nth:
  assumes "distinct ord" "\<forall>t < length ord. ord ! t < length vs"
  shows "j \<le> length ord \<Longrightarrow> t < length ord \<Longrightarrow>
     sentinels_upto ord vs j ! (ord ! t) =
       (if t < j \<and> dup_pos ord vs t then infinite_point else vs ! (ord ! t))"
proof (induction j)
  case 0
  then show ?case by simp
next
  case (Suc j)
  then have j: "j < length ord" "j \<le> length ord" by simp_all
  have eq: "(ord ! j = ord ! t) = (j = t)"
    using assms(1) j(1) Suc.prems(2) by (simp add: nth_eq_iff_index_eq)
  have lt: "ord ! j < length vs" using assms(2) j(1) by simp
  show ?case
    using Suc.IH [OF j(2) Suc.prems(2)] eq lt
    by (auto simp: nth_list_update less_Suc_eq)
qed

lemma alias_upto_nth:
  assumes "distinct ord"
  shows "j \<le> length ord \<Longrightarrow> t < length ord \<Longrightarrow>
     alias_upto ord vs j (int (ord ! t)) =
       (if t < j \<and> dup_pos ord vs t then Some (int (ord ! run_start ord vs t)) else None)"
proof (induction j)
  case 0
  then show ?case by simp
next
  case (Suc j)
  then have j: "j < length ord" "j \<le> length ord" by simp_all
  have eq: "(ord ! j = ord ! t) = (j = t)"
    using assms(1) j(1) Suc.prems(2) by (simp add: nth_eq_iff_index_eq)
  show ?case
    using Suc.IH [OF j(2) Suc.prems(2)] eq
    by (auto simp: less_Suc_eq)
qed

lemma alias_upto_other:
  "j \<le> length ord \<Longrightarrow> a \<notin> int ` set ord \<Longrightarrow> alias_upto ord vs j a = None"
proof (induction j)
  case 0
  then show ?case by simp
next
  case (Suc j)
  then have "j < length ord" by simp
  then have "int (ord ! j) \<in> int ` set ord" by simp
  with Suc show ?case by auto
qed

subsection \<open>The two loops, in closed form\<close>

lemma size_t_sub_1:
  assumes "1 \<le> n" "n \<le> INT_MAX"
  shows "size_t_sub n (Suc 0) = n - 1"
proof -
  obtain k where n: "n = Suc k" using assms(1) by (cases n) auto
  have k: "k < 18446744073709551616"
    using assms(2) by (simp add: INT_MAX_def n)
  have "size_t_sub n (Suc 0) = (k + 18446744073709551616) mod 18446744073709551616"
    by (simp add: size_t_sub_def n)
  also have "\<dots> = k" using k by simp
  finally show ?thesis by (simp add: n)
qed

text \<open>The inner loop, started inside a run, stops at the end of that run.\<close>

lemma dedup_inner_closed:
  assumes d: "distinct ord" and r: "\<forall>t < length ord. ord ! t < length vs"
    and n: "length ord \<le> INT_MAX"
  shows "i < j \<Longrightarrow> j \<le> length ord \<Longrightarrow> \<not> dup_pos ord vs i \<Longrightarrow>
     \<forall>t. i < t \<and> t < j \<longrightarrow> dup_pos ord vs t \<Longrightarrow>
     \<exists>j'. dedup_inner ord i j (sentinels_upto ord vs j, alias_upto ord vs j)
             = Inr (j', sentinels_upto ord vs j', alias_upto ord vs j')
          \<and> j \<le> j' \<and> j' \<le> length ord \<and> (j' < length ord \<longrightarrow> \<not> dup_pos ord vs j')"
proof (induction "length ord - j" arbitrary: j)
  case 0
  then have "j = length ord" by simp
  then have "dedup_inner ord i j (sentinels_upto ord vs j, alias_upto ord vs j)
      = Inr (j, sentinels_upto ord vs j, alias_upto ord vs j)"
    by (subst dedup_inner.simps) simp
  with \<open>j = length ord\<close> show ?case by auto
next
  case (Suc k)
  then have jn: "j < length ord" and i: "i < length ord" by simp_all
  have vi: "sentinels_upto ord vs j ! (ord ! i) = vs ! (ord ! i)"
    using sentinels_upto_nth [OF d r, of j i] Suc.prems(2) i Suc.prems(3) by simp
  have vj: "sentinels_upto ord vs j ! (ord ! j) = vs ! (ord ! j)"
    using sentinels_upto_nth [OF d r, of j j] Suc.prems(2) jn by simp
  have test: "pt_eq (vs ! (ord ! i)) (vs ! (ord ! j)) = dup_pos ord vs j"
    using Suc.prems(1,4) by (rule inner_test)
  show ?case
  proof (cases "dup_pos ord vs j")
    case True
    have rs: "run_start ord vs j = i"
      using Suc.prems(1,3,4) True
      by (intro run_start_run) (auto simp: less_le)
    have no: "\<not> INT_MAX \<le> j" using jn n by simp
    have step: "dedup_inner ord i j (sentinels_upto ord vs j, alias_upto ord vs j)
       = dedup_inner ord i (Suc j) (sentinels_upto ord vs (Suc j), alias_upto ord vs (Suc j))"
      using True jn no test vi vj rs
      by (subst dedup_inner.simps) simp
    have k: "k = length ord - Suc j" using Suc.hyps(2) by simp
    have run: "\<forall>t. i < t \<and> t < Suc j \<longrightarrow> dup_pos ord vs t"
      using Suc.prems(4) True by (auto simp: less_Suc_eq)
    from Suc.hyps(1) [OF k _ _ Suc.prems(3) run] Suc.prems(1) jn
    obtain j' where "dedup_inner ord i (Suc j) (sentinels_upto ord vs (Suc j), alias_upto ord vs (Suc j))
             = Inr (j', sentinels_upto ord vs j', alias_upto ord vs j')"
      "Suc j \<le> j'" "j' \<le> length ord" "j' < length ord \<longrightarrow> \<not> dup_pos ord vs j'"
      by auto
    with step show ?thesis by auto
  next
    case False
    have "dedup_inner ord i j (sentinels_upto ord vs j, alias_upto ord vs j)
      = Inr (j, sentinels_upto ord vs j, alias_upto ord vs j)"
      using False test vi vj by (subst dedup_inner.simps) simp
    with False Suc.prems(2) show ?thesis by auto
  qed
qed

text \<open>The outer loop, started at the first position of a run, runs to the end of the order.\<close>

lemma dedup_outer_closed:
  assumes d: "distinct ord" and r: "\<forall>t < length ord. ord ! t < length vs"
    and n: "length ord \<le> INT_MAX" and pos: "1 \<le> length ord"
  shows "i \<le> length ord \<Longrightarrow> (i < length ord \<longrightarrow> \<not> dup_pos ord vs i) \<Longrightarrow>
     dedup_outer ord i (sentinels_upto ord vs i, alias_upto ord vs i)
       = Inr (sentinels_upto ord vs (length ord), alias_upto ord vs (length ord))"
proof (induction i rule: measure_induct_rule [where f = "\<lambda>i. length ord - i"])
  case (less i)
  show ?case
  proof (cases "i < length ord - 1")
    case True
    then have nd: "\<not> dup_pos ord vs i" and no: "\<not> INT_MAX \<le> i" using less.prems n by simp_all
    have same: "sentinels_upto ord vs (Suc i) = sentinels_upto ord vs i"
      "alias_upto ord vs (Suc i) = alias_upto ord vs i"
      using nd by simp_all
    have "Suc i \<le> length ord" "\<forall>t. i < t \<and> t < Suc i \<longrightarrow> dup_pos ord vs t"
      using True by auto
    then have "\<exists>j'. dedup_inner ord i (Suc i) (sentinels_upto ord vs (Suc i), alias_upto ord vs (Suc i))
             = Inr (j', sentinels_upto ord vs j', alias_upto ord vs j')
          \<and> Suc i \<le> j' \<and> j' \<le> length ord \<and> (j' < length ord \<longrightarrow> \<not> dup_pos ord vs j')"
      using nd by (intro dedup_inner_closed [OF d r n]) blast+
    then obtain j' where inner: "dedup_inner ord i (Suc i) (sentinels_upto ord vs i, alias_upto ord vs i)
             = Inr (j', sentinels_upto ord vs j', alias_upto ord vs j')"
      and j': "Suc i \<le> j'" "j' \<le> length ord" "j' < length ord \<longrightarrow> \<not> dup_pos ord vs j'"
      unfolding same by blast
    have "dedup_outer ord i (sentinels_upto ord vs i, alias_upto ord vs i)
        = dedup_outer ord j' (sentinels_upto ord vs j', alias_upto ord vs j')"
      using True no inner
      by (subst dedup_outer.simps) (simp add: size_t_sub_1 [OF pos n])
    also have "\<dots> = Inr (sentinels_upto ord vs (length ord), alias_upto ord vs (length ord))"
      using j' True by (intro less.IH) simp_all
    finally show ?thesis .
  next
    case False
    have out: "dedup_outer ord i (sentinels_upto ord vs i, alias_upto ord vs i)
        = Inr (sentinels_upto ord vs i, alias_upto ord vs i)"
      using False by (subst dedup_outer.simps) (simp add: size_t_sub_1 [OF pos n])
    show ?thesis
    proof (cases "i = length ord")
      case True
      with out show ?thesis by simp
    next
      case False
      with \<open>\<not> i < length ord - 1\<close> less.prems have i: "length ord = Suc i" by simp
      with less.prems have "\<not> dup_pos ord vs i" by simp
      then have "sentinels_upto ord vs (Suc i) = sentinels_upto ord vs i"
        "alias_upto ord vs (Suc i) = alias_upto ord vs i"
        by simp_all
      with out i show ?thesis by simp
    qed
  qed
qed

lemma dedup_loops:
  assumes "distinct ord" "\<forall>t < length ord. ord ! t < length vs"
    "length ord \<le> INT_MAX" "1 \<le> length ord"
  shows "dedup_outer ord 0 (vs, Map.empty)
       = Inr (sentinels_upto ord vs (length ord), alias_upto ord vs (length ord))"
  using dedup_outer_closed [OF assms, of 0] by simp

subsection \<open>Deduplication of vertices without NaN\<close>

lemma sorted_order_length [simp]: "length (sorted_order vs) = length vs"
  by (simp add: sorted_order_def)

lemma sorted_order_set [simp]: "set (sorted_order vs) = {0..<length vs}"
  by (simp add: sorted_order_def)

lemma sorted_order_distinct [simp]: "distinct (sorted_order vs)"
  by (simp add: sorted_order_def)

lemma sorted_order_nth: "t < length vs \<Longrightarrow> sorted_order vs ! t < length vs"
  using nth_mem [of t "sorted_order vs"] by simp

lemma position_of:
  assumes "a < length vs"
  obtains t where "t < length vs" "sorted_order vs ! t = a"
proof -
  from assms have "a \<in> set (sorted_order vs)" by simp
  then have "\<exists>t < length (sorted_order vs). sorted_order vs ! t = a"
    by (rule in_set_conv_nth [THEN iffD1])
  with that show thesis by auto
qed

lemma sorted_order_sorted:
  assumes "list_all finite_pt vs" "s \<le> t" "t < length vs"
  shows "\<not> pt_less (vs ! (sorted_order vs ! t)) (vs ! (sorted_order vs ! s))"
proof -
  have "strict_weak_on (\<lambda>i1 i2. pt_less (vs ! i1) (vs ! i2)) [0..<length vs]"
    using assms(1) by (rule finite_strict_weak)
  from std_sort_nth_sorted [OF this assms(2)] assms(3) show ?thesis
    by (simp add: sorted_order_def)
qed

text \<open>In the sorted order equal vertices are neighbours: the later of two is a duplicate position.\<close>

lemma sorted_dups:
  assumes fin: "list_all finite_pt vs" and st: "s < t" "t < length vs"
    and eq: "vs ! (sorted_order vs ! s) = vs ! (sorted_order vs ! t)"
  shows "dup_pos (sorted_order vs) vs t"
proof -
  let ?key = "\<lambda>u. vs ! (sorted_order vs ! u)"
  have f: "finite_pt (?key u)" if "u < length vs" for u
    using fin sorted_order_nth [OF that] by (simp add: list_all_length)
  have 1: "\<not> pt_less (?key t) (?key (t - 1))"
    using st by (intro sorted_order_sorted [OF fin]) simp_all
  have "\<not> pt_less (?key (t - 1)) (?key s)"
    using st by (intro sorted_order_sorted [OF fin]) simp_all
  with eq have 2: "\<not> pt_less (?key (t - 1)) (?key t)" by simp
  have "?key (t - 1) = ?key t"
    using st 1 2 by (intro pt_less_total f) simp_all
  moreover have "pt_eq (?key t) (?key t)"
    using f [OF st(2)] by (simp add: pt_eq_finite)
  ultimately show ?thesis
    using st(1) by (simp add: dup_pos_def)
qed

lemma removeDuplicatedVertices_closed:
  assumes fin: "list_all finite_pt (vertices m)"
    and n: "1 \<le> length (vertices m)" "length (vertices m) \<le> INT_MAX"
  shows "removeDuplicatedVertices m =
     Inr (m\<lparr>vertices := sentinels_upto (sorted_order (vertices m)) (vertices m) (length (vertices m)),
            faces := map (map_face (apply_alias
              (alias_upto (sorted_order (vertices m)) (vertices m) (length (vertices m))))) (faces m)\<rparr>)"
proof -
  let ?vs = "vertices m"
  have swo: "strict_weak_on (\<lambda>i1 i2. pt_less (?vs ! i1) (?vs ! i2)) [0..<length ?vs]"
    using fin by (rule finite_strict_weak)
  have "dedup_outer (sorted_order ?vs) 0 (?vs, Map.empty)
       = Inr (sentinels_upto (sorted_order ?vs) ?vs (length (sorted_order ?vs)),
              alias_upto (sorted_order ?vs) ?vs (length (sorted_order ?vs)))"
    using n by (intro dedup_loops) (simp_all add: sorted_order_nth)
  then have loops: "dedup_outer (std_sort (\<lambda>i1 i2. pt_less (?vs ! i1) (?vs ! i2)) [0..<length ?vs]) 0 (?vs, Map.empty)
       = Inr (sentinels_upto (sorted_order ?vs) ?vs (length ?vs),
              alias_upto (sorted_order ?vs) ?vs (length ?vs))"
    by (simp add: sorted_order_def)
  show ?thesis
    unfolding removeDuplicatedVertices_def Let_def
    using swo by (simp add: loops)
qed

text \<open>The vertex and the alias of the index at position \<open>t\<close> of the order, after the loops.\<close>

lemma dedup_vertex:
  assumes "t < length vs"
  shows "sentinels_upto (sorted_order vs) vs (length vs) ! (sorted_order vs ! t) =
     (if dup_pos (sorted_order vs) vs t then infinite_point else vs ! (sorted_order vs ! t))"
  using sentinels_upto_nth [of "sorted_order vs" vs "length vs" t] assms
  by (simp add: sorted_order_nth)

lemma dedup_alias:
  assumes "t < length vs"
  shows "apply_alias (alias_upto (sorted_order vs) vs (length vs)) (int (sorted_order vs ! t)) =
     (if dup_pos (sorted_order vs) vs t
      then int (sorted_order vs ! run_start (sorted_order vs) vs t)
      else int (sorted_order vs ! t))"
  using alias_upto_nth [of "sorted_order vs" "length vs" t vs] assms
  by (simp add: apply_alias_def)

lemma dedup_alias_outside:
  assumes "\<not> in_range a vs"
  shows "apply_alias (alias_upto (sorted_order vs) vs (length vs)) a = a"
proof -
  have "a \<notin> int ` set (sorted_order vs)"
    using assms by (auto simp: in_range_def)
  then have "alias_upto (sorted_order vs) vs (length vs) a = None"
    by (intro alias_upto_other) simp_all
  then show ?thesis by (simp add: apply_alias_def)
qed

lemma infinite_point_not_finite [simp]: "\<not> finite_pt infinite_point"
  by (simp add: finite_pt_def isnan_pt_def infinite_point_def)

lemma finite_nth: "list_all finite_pt vs \<Longrightarrow> k < length vs \<Longrightarrow> finite_pt (vs ! k)"
  by (simp add: list_all_length)

lemma finite_not_sentinel: "list_all finite_pt vs \<Longrightarrow> k < length vs \<Longrightarrow> vs ! k \<noteq> infinite_point"
  using finite_nth [of vs k] by auto

text \<open>The canonical index of an index: the first of its run in the sorted order.\<close>

lemma dedup_canonical:
  assumes fin: "list_all finite_pt vs" and t: "t < length vs"
  shows "sorted_order vs ! run_start (sorted_order vs) vs t < length vs"
    and "vs ! (sorted_order vs ! run_start (sorted_order vs) vs t) = vs ! (sorted_order vs ! t)"
    and "sentinels_upto (sorted_order vs) vs (length vs) ! (sorted_order vs ! run_start (sorted_order vs) vs t)
         = vs ! (sorted_order vs ! run_start (sorted_order vs) vs t)"
proof -
  let ?ord = "sorted_order vs"
  let ?c = "?ord ! run_start ?ord vs t"
  have rt: "run_start ?ord vs t < length vs"
    using run_start_le [of ?ord vs t] t by simp
  show c: "?c < length vs"
    using rt by (rule sorted_order_nth)
  show "sentinels_upto ?ord vs (length vs) ! ?c = vs ! ?c"
    using dedup_vertex [OF rt] run_start_no_dup [of ?ord vs t] by simp
  show "vs ! ?c = vs ! (?ord ! t)"
  proof (cases "dup_pos ?ord vs t")
    case True
    then have "pt_eq (vs ! ?c) (vs ! (?ord ! t))"
      by (rule run_start_eq)
    moreover have "finite_pt (vs ! ?c)" "finite_pt (vs ! (?ord ! t))"
      using fin c t by (simp_all add: finite_nth sorted_order_nth)
    ultimately show ?thesis by (simp add: pt_eq_finite)
  next
    case False
    then show ?thesis by (simp add: run_start_self)
  qed
qed

lemma dedup_kept_or_sentinel:
  assumes "k < length vs"
  shows "sentinels_upto (sorted_order vs) vs (length vs) ! k = vs ! k
       \<or> sentinels_upto (sorted_order vs) vs (length vs) ! k = infinite_point"
proof -
  from assms obtain t where t: "t < length vs" "sorted_order vs ! t = k"
    by (rule position_of)
  from dedup_vertex [OF t(1)] t(2) show ?thesis by auto
qed

lemma dedup_one_of_two:
  assumes fin: "list_all finite_pt vs" and ab: "a < length vs" "b < length vs" "a \<noteq> b"
    and eq: "pt_eq (vs ! a) (vs ! b)"
  shows "sentinels_upto (sorted_order vs) vs (length vs) ! a = infinite_point
       \<or> sentinels_upto (sorted_order vs) vs (length vs) ! b = infinite_point"
proof -
  from ab(1) obtain s where s: "s < length vs" "sorted_order vs ! s = a" by (rule position_of)
  from ab(2) obtain t where t: "t < length vs" "sorted_order vs ! t = b" by (rule position_of)
  from eq have e: "vs ! a = vs ! b"
    using fin ab by (simp add: pt_eq_finite finite_nth)
  from e s(2) t(2) have e': "vs ! (sorted_order vs ! s) = vs ! (sorted_order vs ! t)"
    "vs ! (sorted_order vs ! t) = vs ! (sorted_order vs ! s)" by simp_all
  from s t ab(3) have "s \<noteq> t" by auto
  then have "s < t \<or> t < s" by auto
  then show ?thesis
  proof
    assume "s < t"
    then have "dup_pos (sorted_order vs) vs t"
      using t(1) e'(1) by (rule sorted_dups [OF fin])
    with dedup_vertex [OF t(1)] t(2) show ?thesis by simp
  next
    assume "t < s"
    then have "dup_pos (sorted_order vs) vs s"
      using s(1) e'(2) by (rule sorted_dups [OF fin])
    with dedup_vertex [OF s(1)] s(2) show ?thesis by simp
  qed
qed

lemma dedup_representative:
  assumes fin: "list_all finite_pt vs" and k: "k < length vs"
  shows "\<exists>c < length vs. pt_eq (vs ! c) (vs ! k)
       \<and> sentinels_upto (sorted_order vs) vs (length vs) ! c = vs ! c"
proof -
  from k obtain t where t: "t < length vs" "sorted_order vs ! t = k" by (rule position_of)
  let ?c = "sorted_order vs ! run_start (sorted_order vs) vs t"
  from dedup_canonical [OF fin t(1)] t(2)
  have c: "?c < length vs" "vs ! ?c = vs ! k"
    "sentinels_upto (sorted_order vs) vs (length vs) ! ?c = vs ! ?c"
    by simp_all
  have "pt_eq (vs ! ?c) (vs ! k)"
    using c(2) fin k by (simp add: pt_eq_finite finite_nth)
  with c show ?thesis by blast
qed

lemma dedup_face_index:
  assumes fin: "list_all finite_pt vs" and a: "in_range a vs"
  defines "g \<equiv> apply_alias (alias_upto (sorted_order vs) vs (length vs))"
  defines "vs' \<equiv> sentinels_upto (sorted_order vs) vs (length vs)"
  shows "in_range (g a) vs" "vs' ! nat (g a) = vs ! nat a" "vs' ! nat a = vs ! nat a \<longrightarrow> g a = a"
proof -
  from a have k: "nat a < length vs" "a = int (nat a)" by (simp_all add: in_range_def)
  from k(1) obtain t where t: "t < length vs" "sorted_order vs ! t = nat a" by (rule position_of)
  let ?c = "sorted_order vs ! run_start (sorted_order vs) vs t"
  from dedup_canonical [OF fin t(1)] t(2)
  have c: "?c < length vs" "vs ! ?c = vs ! nat a"
    "sentinels_upto (sorted_order vs) vs (length vs) ! ?c = vs ! ?c"
    by simp_all
  have ga: "g a = (if dup_pos (sorted_order vs) vs t then int ?c else a)"
    using dedup_alias [OF t(1)] t(2) k(2) by (simp add: g_def)
  have va: "vs' ! nat a = (if dup_pos (sorted_order vs) vs t then infinite_point else vs ! nat a)"
    using dedup_vertex [OF t(1)] t(2) by (simp add: vs'_def)
  show "in_range (g a) vs"
    using ga c(1) a by (simp add: in_range_def)
  show "vs' ! nat (g a) = vs ! nat a"
    using ga c(2,3) va by (simp add: vs'_def)
  show "vs' ! nat a = vs ! nat a \<longrightarrow> g a = a"
    using ga va finite_not_sentinel [OF fin k(1)] by auto
qed

subsection \<open>What the deduplication leaves\<close>

lemma map_face_indices: "set (face_indices (map_face g f)) = g ` set (face_indices f)"
  by (cases f) auto

text \<open>
  C2, as the code has it. Let the vertices of the mesh hold no NaN coordinate and
  their number fit an \<^verbatim>\<open>int\<close>. When \<^verbatim>\<open>removeDuplicatedVertices\<close> returns, the vertex
  array has its old length and each vertex is unchanged or the sentinel; of two
  different indices with equal positions at least one is the sentinel, and every
  position keeps one index that is unchanged; each face index that named a vertex
  now names an unchanged vertex with the same position, is untouched when its own
  vertex is unchanged, and an index outside the array is untouched; so no face index
  names a sentinel, and no two different face indices name equal positions.
\<close>

theorem removeDuplicatedVertices_merges:
  assumes ret: "removeDuplicatedVertices m = Inr m'"
    and fin: "list_all finite_pt (vertices m)"
    and len: "length (vertices m) \<le> INT_MAX"
  shows "length (vertices m') = length (vertices m)
       \<and> (\<forall>k < length (vertices m).
             vertices m' ! k = vertices m ! k \<or> vertices m' ! k = infinite_point)
       \<and> (\<forall>a < length (vertices m). \<forall>b < length (vertices m).
             a \<noteq> b \<and> pt_eq (vertices m ! a) (vertices m ! b) \<longrightarrow>
             vertices m' ! a = infinite_point \<or> vertices m' ! b = infinite_point)
       \<and> (\<forall>k < length (vertices m). \<exists>c < length (vertices m).
             pt_eq (vertices m ! c) (vertices m ! k) \<and> vertices m' ! c = vertices m ! c)
       \<and> (\<exists>g. faces m' = map (map_face g) (faces m)
             \<and> (\<forall>a. in_range a (vertices m) \<longrightarrow>
                    in_range (g a) (vertices m) \<and> vertices m' ! nat (g a) = vertices m ! nat a
                    \<and> (vertices m' ! nat a = vertices m ! nat a \<longrightarrow> g a = a))
             \<and> (\<forall>a. \<not> in_range a (vertices m) \<longrightarrow> g a = a))
       \<and> (\<forall>f \<in> set (faces m'). \<forall>a \<in> set (face_indices f).
             in_range a (vertices m') \<longrightarrow> vertices m' ! nat a \<noteq> infinite_point)
       \<and> (\<forall>f \<in> set (faces m'). \<forall>h \<in> set (faces m').
           \<forall>a \<in> set (face_indices f). \<forall>b \<in> set (face_indices h).
             in_range a (vertices m') \<and> in_range b (vertices m') \<and> a \<noteq> b \<longrightarrow>
             \<not> pt_eq (vertices m' ! nat a) (vertices m' ! nat b))"
proof -
  let ?vs = "vertices m"
  let ?vs' = "sentinels_upto (sorted_order ?vs) ?vs (length ?vs)"
  let ?g = "apply_alias (alias_upto (sorted_order ?vs) ?vs (length ?vs))"
  have pos: "1 \<le> length ?vs"
  proof (rule ccontr)
    assume "\<not> 1 \<le> length ?vs"
    then have "?vs = []" by (cases ?vs) simp_all
    from removeDuplicatedVertices_no_vertices [OF this] ret show False by simp
  qed
  from removeDuplicatedVertices_closed [OF fin pos len] ret
  have m': "m' = m\<lparr>vertices := ?vs', faces := map (map_face ?g) (faces m)\<rparr>"
    by simp
  have v: "vertices m' = ?vs'" and f: "faces m' = map (map_face ?g) (faces m)"
    by (simp_all add: m')
  have 1: "length (vertices m') = length ?vs"
    by (simp add: v)
  have 2: "\<forall>k < length ?vs. vertices m' ! k = ?vs ! k \<or> vertices m' ! k = infinite_point"
    unfolding v using dedup_kept_or_sentinel by blast
  have 3: "\<forall>a < length ?vs. \<forall>b < length ?vs.
             a \<noteq> b \<and> pt_eq (?vs ! a) (?vs ! b) \<longrightarrow>
             vertices m' ! a = infinite_point \<or> vertices m' ! b = infinite_point"
    unfolding v using dedup_one_of_two [OF fin] by blast
  have 4: "\<forall>k < length ?vs. \<exists>c < length ?vs.
             pt_eq (?vs ! c) (?vs ! k) \<and> vertices m' ! c = ?vs ! c"
    unfolding v using dedup_representative [OF fin] by blast
  have g_in: "in_range (?g a) ?vs \<and> vertices m' ! nat (?g a) = ?vs ! nat a
      \<and> (vertices m' ! nat a = ?vs ! nat a \<longrightarrow> ?g a = a)" if "in_range a ?vs" for a
    unfolding v using dedup_face_index [OF fin that] by blast
  have g_out: "?g a = a" if "\<not> in_range a ?vs" for a
    using that by (rule dedup_alias_outside)
  have 5: "\<exists>g. faces m' = map (map_face g) (faces m)
             \<and> (\<forall>a. in_range a ?vs \<longrightarrow>
                    in_range (g a) ?vs \<and> vertices m' ! nat (g a) = ?vs ! nat a
                    \<and> (vertices m' ! nat a = ?vs ! nat a \<longrightarrow> g a = a))
             \<and> (\<forall>a. \<not> in_range a ?vs \<longrightarrow> g a = a)"
    using f g_in g_out by blast
  have same_range: "in_range a (vertices m') = in_range a ?vs" for a
    by (simp add: in_range_def 1)
  have named: "nat a' < length ?vs \<and> finite_pt (vertices m' ! nat a') \<and> vertices m' ! nat a' = ?vs ! nat a'"
    if "f' \<in> set (faces m')" "a' \<in> set (face_indices f')" "in_range a' (vertices m')" for f' a'
  proof -
    from that(1,2) obtain a where a: "a' = ?g a"
      unfolding f by (auto simp: map_face_indices)
    have ir: "in_range a ?vs"
    proof (rule ccontr)
      assume "\<not> in_range a ?vs"
      with g_out [of a] a that(3) show False by (simp add: same_range)
    qed
    have lt: "nat a' < length ?vs"
      using that(3) by (simp add: in_range_def 1)
    have "vertices m' ! nat a' = ?vs ! nat a"
      using g_in [OF ir] a by simp
    moreover have "finite_pt (?vs ! nat a)"
      using fin ir by (simp add: finite_nth in_range_def)
    ultimately have fp: "finite_pt (vertices m' ! nat a')" by simp
    then have "vertices m' ! nat a' \<noteq> infinite_point" by auto
    with 2 lt have "vertices m' ! nat a' = ?vs ! nat a'" by blast
    with lt fp show ?thesis by simp
  qed
  have 6: "\<forall>f \<in> set (faces m'). \<forall>a \<in> set (face_indices f).
             in_range a (vertices m') \<longrightarrow> vertices m' ! nat a \<noteq> infinite_point"
    using named by fastforce
  have 7: "\<not> pt_eq (vertices m' ! nat a) (vertices m' ! nat b)"
    if "f' \<in> set (faces m')" "h \<in> set (faces m')" "a \<in> set (face_indices f')" "b \<in> set (face_indices h)"
      "in_range a (vertices m')" "in_range b (vertices m')" "a \<noteq> b" for f' h a b
  proof
    assume eq: "pt_eq (vertices m' ! nat a) (vertices m' ! nat b)"
    from named [OF that(1,3,5)] have na: "nat a < length ?vs" "finite_pt (vertices m' ! nat a)"
      "vertices m' ! nat a = ?vs ! nat a" by blast+
    from named [OF that(2,4,6)] have nb: "nat b < length ?vs" "finite_pt (vertices m' ! nat b)"
      "vertices m' ! nat b = ?vs ! nat b" by blast+
    have ne: "nat a \<noteq> nat b"
      using that(5,6,7) by (auto simp: in_range_def)
    from eq na(3) nb(3) have "pt_eq (?vs ! nat a) (?vs ! nat b)" by simp
    with 3 na(1) nb(1) ne have "vertices m' ! nat a = infinite_point \<or> vertices m' ! nat b = infinite_point"
      by blast
    with na(2) nb(2) show False by auto
  qed
  from 1 2 3 4 5 6 7 show ?thesis by blast
qed

lemma dup_mesh_result:
  "removeDuplicatedVertices dup_mesh =
     Inr (dup_mesh\<lparr>vertices := [Point3f (Finite 1) (Finite 0) (Finite 0), Point3f (Finite 0) (Finite 0) (Finite 0),
                                 infinite_point, infinite_point, Point3f (Finite 2) (Finite 0) (Finite 0)],
                    faces := [Face 0 1 4, Face 0 1 4]\<rparr>)"
  by (simp add: removeDuplicatedVertices_def dup_mesh_def empty_mesh_def strict_weak_on_def
      pt_less_def std_sort_def upt_rec size_t_sub_def INT_MAX_def pt_eq_def apply_alias_def Let_def
      dedup_outer.simps dedup_inner.simps)

theorem removeDuplicatedVertices_merges_witness:
  "removeDuplicatedVertices dup_mesh =
     Inr (dup_mesh\<lparr>vertices := [Point3f (Finite 1) (Finite 0) (Finite 0), Point3f (Finite 0) (Finite 0) (Finite 0),
                                 infinite_point, infinite_point, Point3f (Finite 2) (Finite 0) (Finite 0)],
                    faces := [Face 0 1 4, Face 0 1 4]\<rparr>)
   \<and> list_all finite_pt (vertices dup_mesh)
   \<and> length (vertices dup_mesh) \<le> INT_MAX
   \<and> length (vertices (dup_mesh\<lparr>vertices := [Point3f (Finite 1) (Finite 0) (Finite 0), Point3f (Finite 0) (Finite 0) (Finite 0),
                                 infinite_point, infinite_point, Point3f (Finite 2) (Finite 0) (Finite 0)],
                    faces := [Face 0 1 4, Face 0 1 4]\<rparr>)) = length (vertices dup_mesh)"
proof -
  have fin: "list_all finite_pt (vertices dup_mesh)"
    by (simp add: dup_mesh_def empty_mesh_def finite_pt_def isnan_pt_def)
  have len: "length (vertices dup_mesh) \<le> INT_MAX"
    by (simp add: dup_mesh_def empty_mesh_def INT_MAX_def)
  from removeDuplicatedVertices_merges [OF dup_mesh_result fin len] dup_mesh_result fin len
  show ?thesis by blast
qed

theorem removeDuplicatedVertices_nan_between:
  "removeDuplicatedVertices nan_between = Inr nan_between
   \<and> faces nan_between = [Face 0 1 2]
   \<and> pt_eq (vertices nan_between ! 0) (vertices nan_between ! 2)"
  by (simp add: removeDuplicatedVertices_def nan_between_def empty_mesh_def strict_weak_on_def
      pt_less_def std_sort_def upt_rec size_t_sub_def INT_MAX_def pt_eq_def apply_alias_def Let_def
      dedup_outer.simps dedup_inner.simps infinite_point_def)

subsection \<open>Meshes the two passes leave alone\<close>

lemma faces_in_range_iff:
  "faces_in_range m = (\<forall>f \<in> set (faces m). \<forall>a \<in> set (face_indices f). in_range a (vertices m))"
  by (simp add: faces_in_range_def list_all_iff)

subsection \<open>Compaction of a mesh without NaN\<close>

lemma kept_upto_all:
  "list_all finite_pt vs \<Longrightarrow> k \<le> length vs \<Longrightarrow> kept_upto vs k = [0..<k]"
proof (induction k)
  case 0
  then show ?case by simp
next
  case (Suc k)
  then have "finite_pt (vs ! k)"
    by (intro finite_nth) simp_all
  then have "keepi vs k"
    unfolding keepi_def finite_pt_def .
  with Suc show ?case by (simp add: kept_upto_Suc)
qed

lemma kept_of_all:
  "list_all finite_pt vs \<Longrightarrow> length xs = length vs \<Longrightarrow> kept_of vs xs = xs"
  using map_nth [of xs] by (simp add: kept_of_def kept_upto_all)

lemma new_indices_all:
  assumes "list_all finite_pt vs" "k < length vs"
  shows "new_indices_from 0 vs ! k = int k"
proof -
  have "finite_pt (vs ! k)"
    using assms by (rule finite_nth)
  then have "keepi vs k"
    unfolding keepi_def finite_pt_def .
  then show ?thesis
    using assms by (simp add: new_indices_from_nth kept_upto_all)
qed

lemma filter_finite: "list_all finite_pt vs \<Longrightarrow> filter (\<lambda>p. \<not> isnan_pt p) vs = vs"
  unfolding finite_pt_def by (induction vs) simp_all

lemma map_face_cong_range:
  "\<forall>a \<in> set (face_indices f). g a = a \<Longrightarrow> map_face g f = f"
  by (cases f) simp

lemma removeIsolatedVertices_returns:
  assumes "list_all (\<lambda>f. list_all (\<lambda>a. in_range a (vertices m)) (face_indices f)) (faces m)"
  shows "\<exists>m'. removeIsolatedVertices m = Inr m'"
proof -
  have "list_all (\<lambda>f. list_all (\<lambda>a. in_range a (new_indices_from 0 (vertices m))) (face_indices f)) (faces m)"
    using assms by (simp add: in_range_def)
  from remap_faces_in_range [OF this] show ?thesis
    by (simp add: removeIsolatedVertices_def Let_def)
qed

lemma removeIsolatedVertices_identity:
  assumes fin: "list_all finite_pt (vertices m)" and inv: "mesh_invariant m"
    and fr: "faces_in_range m"
  shows "removeIsolatedVertices m = Inr m"
proof -
  let ?vs = "vertices m"
  from fr obtain m' where ret: "removeIsolatedVertices m = Inr m'"
    unfolding faces_in_range_def by (auto dest: removeIsolatedVertices_returns)
  have v: "vertices m' = ?vs"
    using removeIsolatedVertices_result(1) [OF ret] fin by (simp add: filter_finite)
  have c: "colors m' = colors m"
    using removeIsolatedVertices_result(2) [OF ret] inv fin
    by (auto simp: hasColors_def mesh_invariant_def kept_of_all)
  have n: "normals m' = normals m"
    using removeIsolatedVertices_result(3) [OF ret] inv fin
    by (auto simp: hasNormals_def mesh_invariant_def kept_of_all)
  have t: "texcoords m' = texcoords m"
    using removeIsolatedVertices_result(4) [OF ret] inv fin
    by (auto simp: hasTexcoords_def mesh_invariant_def kept_of_all)
  have "faces m' = map (map_face (\<lambda>a. new_indices_from 0 ?vs ! nat a)) (faces m)"
    using remap_faces_result [OF removeIsolatedVertices_result(5) [OF ret]] by simp
  also have "\<dots> = map (\<lambda>f. f) (faces m)"
  proof (rule map_cong [OF refl])
    fix f assume f: "f \<in> set (faces m)"
    have "new_indices_from 0 ?vs ! nat a = a" if "a \<in> set (face_indices f)" for a
    proof -
      from fr f that have "in_range a ?vs" by (simp add: faces_in_range_iff)
      then show ?thesis
        using new_indices_all [OF fin, of "nat a"] by (simp add: in_range_def)
    qed
    then show "map_face (\<lambda>a. new_indices_from 0 ?vs ! nat a) f = f"
      by (intro map_face_cong_range) simp
  qed
  finally have f: "faces m' = faces m" by simp
  have "m' = m"
    using v c n t f removeIsolatedVertices_result(6,7) [OF ret]
    by (intro Mesh.equality) simp_all
  with ret show ?thesis by simp
qed

subsection \<open>Deduplication of a mesh with distinct vertices\<close>

lemma no_dup_pos:
  assumes "distinct vs" "list_all finite_pt vs" "t < length vs"
  shows "\<not> dup_pos (sorted_order vs) vs t"
proof
  assume d: "dup_pos (sorted_order vs) vs t"
  then have t0: "0 < t" and e: "pt_eq (vs ! (sorted_order vs ! (t - 1))) (vs ! (sorted_order vs ! t))"
    by (simp_all add: dup_pos_def)
  let ?a = "sorted_order vs ! (t - 1)" and ?b = "sorted_order vs ! t"
  have ab: "?a < length vs" "?b < length vs"
    using assms(3) by (simp_all add: sorted_order_nth)
  have "?a \<noteq> ?b"
    using t0 assms(3) by (simp add: nth_eq_iff_index_eq)
  moreover have "vs ! ?a = vs ! ?b"
    using e ab assms(2) by (simp add: pt_eq_finite finite_nth)
  ultimately show False
    using assms(1) ab by (simp add: nth_eq_iff_index_eq)
qed

lemma no_dups_state:
  "\<forall>t < j. \<not> dup_pos ord vs t \<Longrightarrow> sentinels_upto ord vs j = vs \<and> alias_upto ord vs j = Map.empty"
  by (induction j) simp_all

lemma apply_alias_empty [simp]: "apply_alias Map.empty a = a"
  by (simp add: apply_alias_def)

lemma map_face_id [simp]: "map_face (\<lambda>a. a) f = f"
  by (cases f) simp

lemma removeDuplicatedVertices_identity:
  assumes fin: "list_all finite_pt (vertices m)" and dis: "distinct (vertices m)"
    and n: "1 \<le> length (vertices m)" "length (vertices m) \<le> INT_MAX"
  shows "removeDuplicatedVertices m = Inr m"
proof -
  have "\<forall>t < length (vertices m). \<not> dup_pos (sorted_order (vertices m)) (vertices m) t"
    using no_dup_pos [OF dis fin] by blast
  from no_dups_state [OF this]
  have "removeDuplicatedVertices m = Inr (m\<lparr>vertices := vertices m, faces := map (map_face (apply_alias Map.empty)) (faces m)\<rparr>)"
    using removeDuplicatedVertices_closed [OF fin n] by simp
  moreover have "map (map_face (apply_alias Map.empty)) (faces m) = faces m"
    by (induction "faces m") (simp_all add: map_idI)
  ultimately show ?thesis by simp
qed

subsection \<open>The pair of passes\<close>

lemma distinct_filter_nth:
  "(\<forall>a < length xs. \<forall>b < length xs. a \<noteq> b \<and> P (xs ! a) \<and> P (xs ! b) \<longrightarrow> xs ! a \<noteq> xs ! b) \<Longrightarrow>
   distinct (filter P xs)"
proof (induction xs)
  case Nil
  then show ?case by simp
next
  case (Cons x xs)
  have rest: "\<forall>a < length xs. \<forall>b < length xs. a \<noteq> b \<and> P (xs ! a) \<and> P (xs ! b) \<longrightarrow> xs ! a \<noteq> xs ! b"
  proof (intro allI impI)
    fix a b assume "a < length xs" "b < length xs" "a \<noteq> b \<and> P (xs ! a) \<and> P (xs ! b)"
    with Cons.prems [rule_format, of "Suc a" "Suc b"] show "xs ! a \<noteq> xs ! b" by simp
  qed
  have "x \<notin> set (filter P xs)" if "P x"
  proof
    assume "x \<in> set (filter P xs)"
    then obtain j where j: "j < length xs" "xs ! j = x"
      by (auto simp: in_set_conv_nth)
    with Cons.prems [rule_format, of 0 "Suc j"] that show False by simp
  qed
  with Cons.IH [OF rest] show ?case by simp
qed

lemma map_faces_indexE:
  assumes "f' \<in> set (map (map_face g) fs)" "a' \<in> set (face_indices f')"
  obtains f a where "f \<in> set fs" "a \<in> set (face_indices f)" "a' = g a"
  using assms by (auto simp: map_face_indices)

lemma isnan_infinite_point [simp]: "isnan_pt infinite_point"
  by (simp add: isnan_pt_def infinite_point_def)

text \<open>What is left after the pair, on a mesh without NaN whose faces name vertices.\<close>

lemma dedup_then_compact_result:
  assumes ne: "vertices m \<noteq> []" and len: "length (vertices m) \<le> INT_MAX"
    and fin: "list_all finite_pt (vertices m)" and fr: "faces_in_range m"
  shows "\<exists>m1. dedup_then_compact m = Inr m1
       \<and> list_all finite_pt (vertices m1) \<and> distinct (vertices m1)
       \<and> 1 \<le> length (vertices m1) \<and> length (vertices m1) \<le> INT_MAX
       \<and> mesh_invariant m1 \<and> faces_in_range m1"
proof -
  let ?vs = "vertices m"
  let ?vs' = "sentinels_upto (sorted_order ?vs) ?vs (length ?vs)"
  let ?g = "apply_alias (alias_upto (sorted_order ?vs) ?vs (length ?vs))"
  let ?md = "m\<lparr>vertices := ?vs', faces := map (map_face ?g) (faces m)\<rparr>"
  let ?ni = "new_indices_from 0 ?vs'"
  from ne have pos: "1 \<le> length ?vs" by (cases ?vs) simp_all
  have md: "removeDuplicatedVertices m = Inr ?md"
    using fin pos len by (rule removeDuplicatedVertices_closed)
  have named: "in_range a' ?vs' \<and> keepi ?vs' (nat a')"
    if "f' \<in> set (map (map_face ?g) (faces m))" "a' \<in> set (face_indices f')" for f' a'
  proof -
    from that obtain f a where fa: "f \<in> set (faces m)" "a \<in> set (face_indices f)" "a' = ?g a"
      by (rule map_faces_indexE)
    from fr fa(1,2) have ir: "in_range a ?vs" by (simp add: faces_in_range_iff)
    from dedup_face_index [OF fin ir] fa(3)
    have g: "in_range a' ?vs" "?vs' ! nat a' = ?vs ! nat a" by simp_all
    have "finite_pt (?vs ! nat a)"
      using fin ir by (simp add: finite_nth in_range_def)
    with g(2) have "\<not> isnan_pt (?vs' ! nat a')" by (simp add: finite_pt_def)
    with g(1) show ?thesis by (simp add: keepi_def in_range_def)
  qed
  have "list_all (\<lambda>f. list_all (\<lambda>a. in_range a (vertices ?md)) (face_indices f)) (faces ?md)"
    unfolding list_all_iff using named by simp
  from removeIsolatedVertices_returns [OF this]
  obtain m1 where m1: "removeIsolatedVertices ?md = Inr m1" by blast
  have pair: "dedup_then_compact m = Inr m1"
    by (simp add: dedup_then_compact_def md m1)
  have v1: "vertices m1 = filter (\<lambda>p. \<not> isnan_pt p) ?vs'"
    using removeIsolatedVertices_result(1) [OF m1] by simp
  have a: "list_all finite_pt (vertices m1)"
    unfolding v1 finite_pt_def by (simp add: list_all_iff)
  have unchanged: "?vs' ! k = ?vs ! k" if "k < length ?vs" "\<not> isnan_pt (?vs' ! k)" for k
    using dedup_kept_or_sentinel [OF that(1)] that(2) by auto
  have b: "distinct (vertices m1)"
    unfolding v1
  proof (rule distinct_filter_nth, intro allI impI)
    fix x y
    assume x: "x < length ?vs'" and y: "y < length ?vs'"
      and xy: "x \<noteq> y \<and> \<not> isnan_pt (?vs' ! x) \<and> \<not> isnan_pt (?vs' ! y)"
    show "?vs' ! x \<noteq> ?vs' ! y"
    proof
      assume e: "?vs' ! x = ?vs' ! y"
      from x y have x': "x < length ?vs" and y': "y < length ?vs" by simp_all
      from xy have nx: "\<not> isnan_pt (?vs' ! x)" and ny: "\<not> isnan_pt (?vs' ! y)" and ne': "x \<noteq> y"
        by blast+
      have ux: "?vs' ! x = ?vs ! x" using x' nx by (rule unchanged)
      have uy: "?vs' ! y = ?vs ! y" using y' ny by (rule unchanged)
      from e ux uy have "?vs ! x = ?vs ! y" by simp
      then have "pt_eq (?vs ! x) (?vs ! y)"
        using fin x' y' by (simp add: pt_eq_finite finite_nth)
      from dedup_one_of_two [OF fin x' y' ne' this]
      have "?vs' ! x = infinite_point \<or> ?vs' ! y = infinite_point" .
      with nx ny show False by auto
    qed
  qed
  have c: "1 \<le> length (vertices m1)"
  proof -
    from ne have "0 < length ?vs" by simp
    from dedup_representative [OF fin this]
    obtain r where r: "r < length ?vs" "?vs' ! r = ?vs ! r" by blast
    have "\<not> isnan_pt (?vs ! r)"
      using finite_nth [OF fin r(1)] by (simp add: finite_pt_def)
    moreover have "?vs' ! r \<in> set ?vs'"
      using r(1) by (intro nth_mem) simp
    ultimately have "?vs' ! r \<in> set (filter (\<lambda>p. \<not> isnan_pt p) ?vs')"
      using r(2) by simp
    then have "vertices m1 \<noteq> []" unfolding v1 by (auto simp: filter_empty_conv)
    then show ?thesis by (cases "vertices m1") simp_all
  qed
  have d: "length (vertices m1) \<le> INT_MAX"
  proof -
    have "length (vertices m1) \<le> length ?vs'" unfolding v1 by (rule length_filter_le)
    with len show ?thesis by simp
  qed
  have e: "mesh_invariant m1"
    using m1 by (rule inv_removeIsolated)
  have f1: "faces m1 = map (map_face (\<lambda>a. ?ni ! nat a)) (map (map_face ?g) (faces m))"
    using remap_faces_result [OF removeIsolatedVertices_result(5) [OF m1]] by simp
  have f: "faces_in_range m1"
    unfolding faces_in_range_iff
  proof (intro ballI)
    fix f'' a''
    assume "f'' \<in> set (faces m1)" "a'' \<in> set (face_indices f'')"
    then obtain f' a' where fa: "f' \<in> set (map (map_face ?g) (faces m))" "a' \<in> set (face_indices f')"
      "a'' = ?ni ! nat a'"
      unfolding f1 by (rule map_faces_indexE)
    from named [OF fa(1,2)] have k: "nat a' < length ?vs'" "keepi ?vs' (nat a')"
      by (simp_all add: in_range_def)
    have "a'' = int (length (kept_upto ?vs' (nat a')))"
      using k fa(3) by (simp add: new_indices_from_nth)
    moreover have "length (kept_upto ?vs' (nat a')) < length (kept_upto ?vs' (length ?vs'))"
      using k by (rule kept_upto_lt)
    moreover have "length (vertices m1) = length (kept_upto ?vs' (length ?vs'))"
      unfolding v1 by (simp add: kept_upto_take)
    ultimately show "in_range a'' (vertices m1)"
      by (simp add: in_range_def)
  qed
  from pair a b c d e f show ?thesis by blast
qed

subsection \<open>The pair run twice\<close>

text \<open>
  C4, as the code has it. Let the mesh have at least one vertex, none with a NaN
  coordinate, a vertex count that fits an \<^verbatim>\<open>int\<close>, and only face indices that name
  a vertex. Then deduplication followed by compaction returns a mesh \<open>m1\<close>, and on
  \<open>m1\<close> the second deduplication returns \<open>m1\<close> itself (it aliases and sentinels
  nothing), the second compaction returns \<open>m1\<close> itself (it drops nothing and leaves
  the faces), and so does the pair.
\<close>

theorem dedup_then_compact_idempotent:
  assumes "vertices m \<noteq> []" "length (vertices m) \<le> INT_MAX"
    "list_all finite_pt (vertices m)" "faces_in_range m"
  shows "\<exists>m1. dedup_then_compact m = Inr m1
       \<and> removeDuplicatedVertices m1 = Inr m1
       \<and> removeIsolatedVertices m1 = Inr m1
       \<and> dedup_then_compact m1 = Inr m1"
proof -
  from dedup_then_compact_result [OF assms]
  obtain m1 where pair: "dedup_then_compact m = Inr m1"
    and fin: "list_all finite_pt (vertices m1)" and dis: "distinct (vertices m1)"
    and n: "1 \<le> length (vertices m1)" "length (vertices m1) \<le> INT_MAX"
    and inv: "mesh_invariant m1" and fr: "faces_in_range m1"
    by blast
  have d: "removeDuplicatedVertices m1 = Inr m1"
    using fin dis n by (rule removeDuplicatedVertices_identity)
  have c: "removeIsolatedVertices m1 = Inr m1"
    using fin inv fr by (rule removeIsolatedVertices_identity)
  have "dedup_then_compact m1 = Inr m1"
    by (simp add: dedup_then_compact_def d c)
  with pair d c show ?thesis by blast
qed

lemma dup_mesh_pair:
  "dedup_then_compact dup_mesh =
     Inr (dup_mesh\<lparr>vertices := [Point3f (Finite 1) (Finite 0) (Finite 0), Point3f (Finite 0) (Finite 0) (Finite 0),
                                 Point3f (Finite 2) (Finite 0) (Finite 0)],
                    faces := [Face 0 1 2, Face 0 1 2]\<rparr>)"
  by (simp add: dedup_then_compact_def dup_mesh_result)
     (simp add: removeIsolatedVertices_def dup_mesh_def empty_mesh_def Let_def isnan_pt_def infinite_point_def
        hasColors_def hasNormals_def hasTexcoords_def copy_vertex_def remap_index_def in_range_def
        upt_rec zero_vec_def eval_nat_numeral)

theorem dedup_then_compact_idempotent_witness:
  "vertices dup_mesh \<noteq> [] \<and> length (vertices dup_mesh) \<le> INT_MAX
   \<and> list_all finite_pt (vertices dup_mesh) \<and> faces_in_range dup_mesh
   \<and> dedup_then_compact (dup_mesh\<lparr>vertices := [Point3f (Finite 1) (Finite 0) (Finite 0), Point3f (Finite 0) (Finite 0) (Finite 0),
                                 Point3f (Finite 2) (Finite 0) (Finite 0)],
                    faces := [Face 0 1 2, Face 0 1 2]\<rparr>)
     = Inr (dup_mesh\<lparr>vertices := [Point3f (Finite 1) (Finite 0) (Finite 0), Point3f (Finite 0) (Finite 0) (Finite 0),
                                 Point3f (Finite 2) (Finite 0) (Finite 0)],
                    faces := [Face 0 1 2, Face 0 1 2]\<rparr>)"
proof -
  have h: "vertices dup_mesh \<noteq> []" "length (vertices dup_mesh) \<le> INT_MAX"
    "list_all finite_pt (vertices dup_mesh)" "faces_in_range dup_mesh"
    by (simp_all add: dup_mesh_def empty_mesh_def INT_MAX_def finite_pt_def isnan_pt_def
        faces_in_range_def in_range_def)
  from dedup_then_compact_idempotent [OF h] dup_mesh_pair h show ?thesis
    by auto
qed

theorem dedup_then_compact_second_run_fails:
  "dedup_then_compact nan_and_point =
     Inr (nan_and_point\<lparr>vertices := [Point3f (Finite 0) (Finite 0) (Finite 0)], faces := [Face (- 1) 0 0]\<rparr>)
   \<and> dedup_then_compact
       (nan_and_point\<lparr>vertices := [Point3f (Finite 0) (Finite 0) (Finite 0)], faces := [Face (- 1) 0 0]\<rparr>)
     = Inl OutOfBounds
   \<and> dedup_then_compact lone_nan = Inr (lone_nan\<lparr>vertices := [], faces := [Face (- 1) (- 1) (- 1)]\<rparr>)
   \<and> dedup_then_compact (lone_nan\<lparr>vertices := [], faces := [Face (- 1) (- 1) (- 1)]\<rparr>) = Inl SignedOverflow"
proof -
  have d1: "removeDuplicatedVertices nan_and_point = Inr nan_and_point"
    by (simp add: removeDuplicatedVertices_def nan_and_point_def lone_nan_def empty_mesh_def
        strict_weak_on_def pt_less_def std_sort_def upt_rec size_t_sub_def INT_MAX_def pt_eq_def
        apply_alias_def Let_def dedup_outer.simps dedup_inner.simps infinite_point_def)
  have c1: "removeIsolatedVertices nan_and_point =
     Inr (nan_and_point\<lparr>vertices := [Point3f (Finite 0) (Finite 0) (Finite 0)], faces := [Face (- 1) 0 0]\<rparr>)"
    by (simp add: removeIsolatedVertices_def nan_and_point_def lone_nan_def empty_mesh_def Let_def isnan_pt_def
        infinite_point_def hasColors_def hasNormals_def hasTexcoords_def copy_vertex_def
        remap_index_def in_range_def upt_rec zero_vec_def eval_nat_numeral)
  have d2: "removeDuplicatedVertices
       (nan_and_point\<lparr>vertices := [Point3f (Finite 0) (Finite 0) (Finite 0)], faces := [Face (- 1) 0 0]\<rparr>)
     = Inr (nan_and_point\<lparr>vertices := [Point3f (Finite 0) (Finite 0) (Finite 0)], faces := [Face (- 1) 0 0]\<rparr>)"
    by (simp add: removeDuplicatedVertices_def nan_and_point_def lone_nan_def empty_mesh_def
        strict_weak_on_def pt_less_def std_sort_def upt_rec size_t_sub_def INT_MAX_def pt_eq_def
        apply_alias_def Let_def dedup_outer.simps dedup_inner.simps infinite_point_def)
  have c2: "removeIsolatedVertices
       (nan_and_point\<lparr>vertices := [Point3f (Finite 0) (Finite 0) (Finite 0)], faces := [Face (- 1) 0 0]\<rparr>)
     = Inl OutOfBounds"
    by (simp add: removeIsolatedVertices_def nan_and_point_def lone_nan_def empty_mesh_def Let_def isnan_pt_def
        infinite_point_def hasColors_def hasNormals_def hasTexcoords_def copy_vertex_def
        remap_index_def in_range_def upt_rec zero_vec_def eval_nat_numeral)
  have d3: "removeDuplicatedVertices lone_nan = Inr lone_nan"
    by (simp add: removeDuplicatedVertices_def nan_and_point_def lone_nan_def empty_mesh_def
        strict_weak_on_def pt_less_def std_sort_def upt_rec size_t_sub_def INT_MAX_def pt_eq_def
        apply_alias_def Let_def dedup_outer.simps dedup_inner.simps infinite_point_def)
  have c3: "removeIsolatedVertices lone_nan = Inr (lone_nan\<lparr>vertices := [], faces := [Face (- 1) (- 1) (- 1)]\<rparr>)"
    by (simp add: removeIsolatedVertices_def nan_and_point_def lone_nan_def empty_mesh_def Let_def isnan_pt_def
        infinite_point_def hasColors_def hasNormals_def hasTexcoords_def copy_vertex_def
        remap_index_def in_range_def upt_rec zero_vec_def eval_nat_numeral)
  have d4: "removeDuplicatedVertices (lone_nan\<lparr>vertices := [], faces := [Face (- 1) (- 1) (- 1)]\<rparr>)
      = Inl SignedOverflow"
    by (rule removeDuplicatedVertices_no_vertices) simp
  show ?thesis
    by (simp add: dedup_then_compact_def d1 c1 d2 c2 d3 c3 d4)
qed

subsection \<open>Saving and reading back\<close>




lemma parse_rows_map:
  "\<forall>l \<in> set ls. parse_row ps l = Some (g l) \<Longrightarrow> parse_rows ps ls = Some (map g ls)"
  by (induction ls) simp_all







subsection \<open>The round trip through the text\<close>

lemma round_sig6_in_decade:
  assumes "100000 \<le> \<bar>x\<bar>" "\<bar>x\<bar> < 1000000"
  shows "round_sig6 x = of_int (round x)"
proof -
  have "\<lfloor>log 10 \<bar>x\<bar>\<rfloor> = 5"
    using assms by (subst floor_log_eq_powr_iff) simp_all
  moreover have "x \<noteq> 0" using assms by auto
  ultimately show ?thesis by (simp add: round_sig6_def)
qed

lemma round_sig6_0 [simp]: "round_sig6 0 = 0"
  by (simp add: round_sig6_def)

lemma round_sig6_100000 [simp]: "round_sig6 100000 = 100000"
  by (subst round_sig6_in_decade) simp_all





subsection \<open>Only triangles are loaded\<close>











end
